theory Spec2Isabelle
  imports Complex_Main
begin

section \<open>The ring buffer of node/RingBuffer.hpp\<close>

text \<open>
  The class \<^verbatim>\<open>RingBuffer<T>\<close> is embedded for the element type \<^verbatim>\<open>T = int\<close>
  (the instantiation the source itself names in \<^verbatim>\<open>dump\<close>). Conventions:
  \<^item> \<^verbatim>\<open>size_t\<close> values are natural numbers. In a well-formed state no subtraction of
    the source goes below zero and no sum reaches \<open>2 ^ 64\<close> (the indices are below
    \<^verbatim>\<open>size\<close>, and \<^verbatim>\<open>size\<close> elements were allocated), so the wrap-around of
    \<^verbatim>\<open>size_t\<close> never shows; the theorems below are stated for well-formed states.
  \<^item> \<^verbatim>\<open>%\<close> with a zero divisor and an access outside an array are undefined behaviour
    in C++; the model returns them as faults.
  \<^item> \<^verbatim>\<open>float\<close> values are idealised as exact rationals (no rounding, no overflow);
    only a division can leave the finite values, and its result type says so. Elements
    are unbounded integers. The model and the code agree as long as every sum stays
    below \<open>2 ^ 24\<close> (the mantissa of a \<^verbatim>\<open>float\<close>) and below \<open>2 ^ 31\<close> (the range of
    \<^verbatim>\<open>int\<close>); the statistics are evaluated below on small integers only.
  \<^item> A member function that assigns to a field returns the object after the call beside
    its result; one that only reads is a function of the object.
  \<^item> \<^verbatim>\<open>get_buf\<close>, \<^verbatim>\<open>stddev\<close> and \<^verbatim>\<open>dump\<close> are left out: nothing below depends on a
    raw pointer, a square root or the debug output.
\<close>

subsection \<open>Faults and checked primitives\<close>

datatype fault = ModuloByZero | OutOfBounds

definition bind_fault :: "fault + 'a \<Rightarrow> ('a \<Rightarrow> fault + 'b) \<Rightarrow> fault + 'b" where
  "bind_fault m f = (case m of Inl e \<Rightarrow> Inl e | Inr x \<Rightarrow> f x)"

text \<open>\<^verbatim>\<open>a % b\<close> on \<^verbatim>\<open>size_t\<close>.\<close>

definition cmod :: "nat \<Rightarrow> nat \<Rightarrow> fault + nat" where
  "cmod a b = (if b = 0 then Inl ModuloByZero else Inr (a mod b))"

text \<open>\<^verbatim>\<open>*(buf + i)\<close> read and written.\<close>

definition load :: "int list \<Rightarrow> nat \<Rightarrow> fault + int" where
  "load b i = (if i < length b then Inr (b ! i) else Inl OutOfBounds)"

definition store :: "int list \<Rightarrow> nat \<Rightarrow> int \<Rightarrow> fault + int list" where
  "store b i v = (if i < length b then Inr (b[i := v]) else Inl OutOfBounds)"

text \<open>
  \<^verbatim>\<open>memcpy(dst + d, src + s, len * sizeof(T))\<close>: \<open>len\<close> elements of \<open>src\<close> from
  offset \<open>s\<close> replace those of \<open>dst\<close> from offset \<open>d\<close>.
\<close>

definition memcpy :: "int list \<Rightarrow> nat \<Rightarrow> int list \<Rightarrow> nat \<Rightarrow> nat \<Rightarrow> fault + int list" where
  "memcpy dst d src s len =
     (if d + len \<le> length dst \<and> s + len \<le> length src
      then Inr (take d dst @ take len (drop s src) @ drop (d + len) dst)
      else Inl OutOfBounds)"

subsection \<open>The object and its constructor\<close>

record ring_buffer =
  rb_buf :: "int list"
  rb_size :: nat
  rb_begin :: nat
  rb_end :: nat
  rb_wrap :: bool

definition RingBuffer :: "nat \<Rightarrow> ring_buffer" where
  "RingBuffer sz =
     \<lparr>rb_buf = replicate sz 0, rb_size = sz, rb_begin = 0, rb_end = 0, rb_wrap = False\<rparr>"

subsection \<open>Occupancy\<close>

definition count :: "ring_buffer \<Rightarrow> nat" where
  "count rb =
     (if rb_end rb = rb_begin rb then (if rb_wrap rb then rb_size rb else 0)
      else if rb_end rb > rb_begin rb then rb_end rb - rb_begin rb
      else rb_size rb + rb_end rb - rb_begin rb)"

definition getFree :: "ring_buffer \<Rightarrow> nat" where
  "getFree rb = rb_size rb - count rb"

subsection \<open>Index bookkeeping: produce, consume, reset\<close>

definition produce :: "nat \<Rightarrow> ring_buffer \<Rightarrow> fault + (nat \<times> ring_buffer)" where
  "produce n0 rb =
     (let n = min n0 (getFree rb) in
      if n = 0 then Inr (n, rb)
      else
        let first_chunk = min n (rb_size rb - rb_end rb) in
        bind_fault (cmod (rb_end rb + first_chunk) (rb_size rb)) (\<lambda>e1.
        bind_fault (if first_chunk < n
                    then cmod (e1 + (n - first_chunk)) (rb_size rb)
                    else Inr e1) (\<lambda>e2.
        let rb2 = rb\<lparr>rb_end := e2\<rparr> in
        Inr (n, if rb_begin rb2 = rb_end rb2 then rb2\<lparr>rb_wrap := True\<rparr> else rb2))))"

definition consume :: "nat \<Rightarrow> ring_buffer \<Rightarrow> fault + (nat \<times> ring_buffer)" where
  "consume n0 rb =
     (let n = min n0 (count rb) in
      if n = 0 then Inr (n, rb)
      else
        let rb1 = (if rb_wrap rb then rb\<lparr>rb_wrap := False\<rparr> else rb);
            first_chunk = min n (rb_size rb1 - rb_begin rb1) in
        bind_fault (cmod (rb_begin rb1 + first_chunk) (rb_size rb1)) (\<lambda>b1.
        bind_fault (if first_chunk < n
                    then cmod (b1 + (n - first_chunk)) (rb_size rb1)
                    else Inr b1) (\<lambda>b2.
        Inr (n, rb1\<lparr>rb_begin := b2\<rparr>))))"

definition reset :: "ring_buffer \<Rightarrow> fault + ring_buffer" where
  "reset rb = bind_fault (consume (count rb) rb) (\<lambda>(n, rb'). Inr rb')"

subsection \<open>Bulk copies: \<open>write_rb\<close> and \<open>read_rb\<close> for the source's write and read\<close>

definition write_rb :: "int list \<Rightarrow> nat \<Rightarrow> ring_buffer \<Rightarrow> fault + (nat \<times> ring_buffer)" where
  "write_rb data n0 rb =
     (let n = min n0 (getFree rb) in
      if n = 0 then Inr (n, rb)
      else
        let first_chunk = min n (rb_size rb - rb_end rb) in
        bind_fault (memcpy (rb_buf rb) (rb_end rb) data 0 first_chunk) (\<lambda>buf1.
        bind_fault (cmod (rb_end rb + first_chunk) (rb_size rb)) (\<lambda>e1.
        bind_fault (if first_chunk < n
                    then (let second_chunk = n - first_chunk in
                          bind_fault (memcpy buf1 e1 data first_chunk second_chunk) (\<lambda>buf2.
                          bind_fault (cmod (e1 + second_chunk) (rb_size rb)) (\<lambda>e2.
                          Inr (buf2, e2))))
                    else Inr (buf1, e1)) (\<lambda>(buf2, e2).
        let rb2 = rb\<lparr>rb_buf := buf2, rb_end := e2\<rparr> in
        Inr (n, if rb_begin rb2 = rb_end rb2 then rb2\<lparr>rb_wrap := True\<rparr> else rb2)))))"

text \<open>\<open>read_rb\<close> returns the count, the destination array after the copy, and the buffer.\<close>

definition read_rb :: "int list \<Rightarrow> nat \<Rightarrow> ring_buffer \<Rightarrow> fault + (nat \<times> int list \<times> ring_buffer)" where
  "read_rb dest n0 rb =
     (let n = min n0 (count rb) in
      if n = 0 then Inr (n, dest, rb)
      else
        let rb1 = (if rb_wrap rb then rb\<lparr>rb_wrap := False\<rparr> else rb);
            first_chunk = min n (rb_size rb1 - rb_begin rb1) in
        bind_fault (memcpy dest 0 (rb_buf rb1) (rb_begin rb1) first_chunk) (\<lambda>dest1.
        bind_fault (cmod (rb_begin rb1 + first_chunk) (rb_size rb1)) (\<lambda>b1.
        bind_fault (if first_chunk < n
                    then (let second_chunk = n - first_chunk in
                          bind_fault (memcpy dest1 first_chunk (rb_buf rb1) b1 second_chunk) (\<lambda>dest2.
                          bind_fault (cmod (b1 + second_chunk) (rb_size rb1)) (\<lambda>b2.
                          Inr (dest2, b2))))
                    else Inr (dest1, b1)) (\<lambda>(dest2, b2).
        Inr (n, dest2, rb1\<lparr>rb_begin := b2\<rparr>)))))"

subsection \<open>Single elements: push, get_most_recent\<close>

definition push :: "int \<Rightarrow> ring_buffer \<Rightarrow> fault + ring_buffer" where
  "push v rb =
     bind_fault (if count rb = rb_size rb
                 then bind_fault (consume 1 rb) (\<lambda>(k, rb'). Inr rb')
                 else Inr rb) (\<lambda>rb1.
     let first_chunk = min 1 (rb_size rb1 - rb_end rb1) in
     bind_fault (store (rb_buf rb1) (rb_end rb1) v) (\<lambda>buf1.
     bind_fault (cmod (rb_end rb1 + first_chunk) (rb_size rb1)) (\<lambda>e1.
     let rb2 = rb1\<lparr>rb_buf := buf1, rb_end := e1\<rparr> in
     Inr (if rb_begin rb2 = rb_end rb2 then rb2\<lparr>rb_wrap := True\<rparr> else rb2))))"

definition get_most_recent :: "ring_buffer \<Rightarrow> fault + int" where
  "get_most_recent rb = load (rb_buf rb) (rb_end rb)"

subsection \<open>Statistics\<close>

text \<open>
  Each loop \<^verbatim>\<open>for (size_t i=0; i<k; i++)\<close> leaves \<open>i\<close> and \<open>k\<close> alone in its body, so
  it runs \<open>k\<close> times: the loops recurse on the number of rounds left, carrying
  \<^verbatim>\<open>iterator\<close> and the accumulator.
\<close>

fun mean_loop :: "int list \<Rightarrow> nat \<Rightarrow> nat \<Rightarrow> nat \<Rightarrow> nat \<Rightarrow> rat \<Rightarrow> fault + rat" where
  "mean_loop b sz curr_cnt 0 iterator subtotal = Inr subtotal"
| "mean_loop b sz curr_cnt (Suc k) iterator subtotal =
     bind_fault (cmod (iterator + sz - 1) curr_cnt) (\<lambda>it.
     bind_fault (load b it) (\<lambda>x.
     mean_loop b sz curr_cnt k it (subtotal + of_int x)))"

definition mean :: "ring_buffer \<Rightarrow> fault + rat" where
  "mean rb =
     (let curr_cnt = count rb in
      bind_fault (mean_loop (rb_buf rb) (rb_size rb) curr_cnt curr_cnt (rb_begin rb) 0) (\<lambda>subtotal.
      Inr (if curr_cnt \<noteq> 0 then subtotal / of_nat curr_cnt else 0)))"

definition mean_n :: "nat \<Rightarrow> ring_buffer \<Rightarrow> fault + rat" where
  "mean_n n0 rb =
     (let n = (if n0 < rb_size rb then n0 else rb_size rb);
          curr_cnt = count rb in
      bind_fault (mean_loop (rb_buf rb) (rb_size rb) curr_cnt n (rb_begin rb) 0) (\<lambda>subtotal.
      Inr (if curr_cnt \<noteq> 0 then subtotal / of_nat curr_cnt else 0)))"

text \<open>A \<^verbatim>\<open>float\<close> result that may have left the finite values.\<close>

datatype float_val = Finite rat | NaN | PosInf | NegInf

definition fdiv :: "rat \<Rightarrow> rat \<Rightarrow> float_val" where
  "fdiv a b =
     (if b \<noteq> 0 then Finite (a / b)
      else if a = 0 then NaN else if a > 0 then PosInf else NegInf)"

text \<open>The conversion of a \<^verbatim>\<open>float\<close> to \<^verbatim>\<open>T = int\<close> drops the fraction.\<close>

definition trunc_int :: "rat \<Rightarrow> int" where
  "trunc_int r = (if r \<ge> 0 then \<lfloor>r\<rfloor> else \<lceil>r\<rceil>)"

text \<open>
  The loop of \<^verbatim>\<open>variance\<close> advances \<^verbatim>\<open>iterator\<close> as the others do but reads
  \<^verbatim>\<open>buf[i]\<close>; \<open>i\<close> is the loop counter, counted up here beside the rounds left.
\<close>

fun variance_loop ::
  "int list \<Rightarrow> nat \<Rightarrow> nat \<Rightarrow> rat \<Rightarrow> nat \<Rightarrow> nat \<Rightarrow> nat \<Rightarrow> int \<Rightarrow> fault + int" where
  "variance_loop b sz curr_cnt cached_mean 0 i iterator s = Inr s"
| "variance_loop b sz curr_cnt cached_mean (Suc k) i iterator s =
     bind_fault (cmod (iterator + sz - 1) curr_cnt) (\<lambda>it.
     bind_fault (load b i) (\<lambda>x.
     let deviation = of_int x - cached_mean in
     variance_loop b sz curr_cnt cached_mean k (Suc i) it
       (trunc_int (of_int s + deviation * deviation))))"

definition variance :: "ring_buffer \<Rightarrow> fault + float_val" where
  "variance rb =
     bind_fault (mean rb) (\<lambda>cached_mean.
     let curr_cnt = count rb in
     if rb_size rb \<noteq> 0
     then bind_fault (variance_loop (rb_buf rb) (rb_size rb) curr_cnt cached_mean
                        curr_cnt 0 (rb_begin rb) 0) (\<lambda>sum_of_squared_deviations.
          Inr (fdiv (of_int sum_of_squared_deviations) (of_nat (rb_size rb - 1))))
     else Inr (Finite 0))"

fun countValue_loop :: "int list \<Rightarrow> nat \<Rightarrow> nat \<Rightarrow> int \<Rightarrow> nat \<Rightarrow> nat \<Rightarrow> nat \<Rightarrow> fault + nat" where
  "countValue_loop b sz curr_cnt v 0 iterator cnt = Inr cnt"
| "countValue_loop b sz curr_cnt v (Suc k) iterator cnt =
     bind_fault (cmod (iterator + sz - 1) curr_cnt) (\<lambda>it.
     bind_fault (load b it) (\<lambda>x.
     countValue_loop b sz curr_cnt v k it (if x = v then cnt + 1 else cnt)))"

definition countValue :: "int \<Rightarrow> ring_buffer \<Rightarrow> fault + nat" where
  "countValue v rb =
     (let curr_cnt = count rb in
      countValue_loop (rb_buf rb) (rb_size rb) curr_cnt v curr_cnt (rb_begin rb) 0)"

fun zeroCount_loop :: "int list \<Rightarrow> nat \<Rightarrow> nat \<Rightarrow> nat \<Rightarrow> nat \<Rightarrow> nat \<Rightarrow> fault + nat" where
  "zeroCount_loop b sz curr_cnt 0 iterator zeros = Inr zeros"
| "zeroCount_loop b sz curr_cnt (Suc k) iterator zeros =
     bind_fault (cmod (iterator + sz - 1) curr_cnt) (\<lambda>it.
     bind_fault (load b it) (\<lambda>x.
     zeroCount_loop b sz curr_cnt k it (if x = 0 then zeros + 1 else zeros)))"

definition zeroCount :: "ring_buffer \<Rightarrow> fault + nat" where
  "zeroCount rb =
     (let curr_cnt = count rb in
      zeroCount_loop (rb_buf rb) (rb_size rb) curr_cnt curr_cnt (rb_begin rb) 0)"

subsection \<open>Callers, well-formed states and the logical contents\<close>

text \<open>A caller pushing the values of a list one after the other, stopping at a fault.\<close>

fun push_all :: "int list \<Rightarrow> ring_buffer \<Rightarrow> fault + ring_buffer" where
  "push_all [] rb = Inr rb"
| "push_all (v # vs) rb = bind_fault (push v rb) (push_all vs)"

text \<open>
  The states an object can be in: the storage has \<^verbatim>\<open>size\<close> elements, both indices
  are inside it, and the flag is raised only where the indices meet.
\<close>

definition invar :: "ring_buffer \<Rightarrow> bool" where
  "invar rb \<longleftrightarrow>
     length (rb_buf rb) = rb_size rb \<and>
     (if rb_size rb = 0 then rb_begin rb = 0 \<and> rb_end rb = 0 \<and> \<not> rb_wrap rb
      else rb_begin rb < rb_size rb \<and> rb_end rb < rb_size rb \<and>
           (rb_wrap rb \<longrightarrow> rb_begin rb = rb_end rb))"

text \<open>The physical position \<open>k\<close> places after position \<open>p\<close>.\<close>

definition advance :: "nat \<Rightarrow> nat \<Rightarrow> nat \<Rightarrow> nat" where
  "advance p sz k = (p + k) mod sz"

text \<open>The occupied elements, oldest first: element \<open>i\<close> lies \<open>i\<close> places after \<^verbatim>\<open>begin\<close>.\<close>

definition contents :: "ring_buffer \<Rightarrow> int list" where
  "contents rb =
     map (\<lambda>i. rb_buf rb ! advance (rb_begin rb) (rb_size rb) i) [0..<count rb]"

text \<open>
  The occupied count as a function of the capacity, the two indices and the flag, and the
  list a copy of \<open>len\<close> elements leaves behind (without the bounds check of \<open>memcpy\<close>).
\<close>

definition occupied :: "nat \<Rightarrow> nat \<Rightarrow> nat \<Rightarrow> bool \<Rightarrow> nat" where
  "occupied sz b e w =
     (if e = b then (if w then sz else 0) else if e > b then e - b else sz + e - b)"

definition spliced :: "int list \<Rightarrow> nat \<Rightarrow> int list \<Rightarrow> nat \<Rightarrow> nat \<Rightarrow> int list" where
  "spliced dst d src s len = take d dst @ take len (drop s src) @ drop (d + len) dst"

subsection \<open>Sequences of operations\<close>

text \<open>
  The calls that change an object, and a caller making a list of them in order, stopping at
  a fault. The returned counts and the destination array of \<open>Read\<close> are dropped.
\<close>

datatype operation =
  Push int | Write "int list" nat | Produce nat | Consume nat | Read "int list" nat | Reset

fun apply_operation :: "operation \<Rightarrow> ring_buffer \<Rightarrow> fault + ring_buffer" where
  "apply_operation (Push v) rb = push v rb"
| "apply_operation (Write data n) rb = bind_fault (write_rb data n rb) (\<lambda>(k, rb'). Inr rb')"
| "apply_operation (Produce n) rb = bind_fault (produce n rb) (\<lambda>(k, rb'). Inr rb')"
| "apply_operation (Consume n) rb = bind_fault (consume n rb) (\<lambda>(k, rb'). Inr rb')"
| "apply_operation (Read dest n) rb = bind_fault (read_rb dest n rb) (\<lambda>(k, dest', rb'). Inr rb')"
| "apply_operation Reset rb = reset rb"

fun run :: "operation list \<Rightarrow> ring_buffer \<Rightarrow> fault + ring_buffer" where
  "run [] rb = Inr rb"
| "run (x # xs) rb = bind_fault (apply_operation x rb) (run xs)"

text \<open>
  The number of elements the buffer of the specification holds after an operation, for a
  capacity \<open>cap\<close> and \<open>h\<close> elements held before: a push evicts one element if the
  buffer is at full occupancy and adds one; a write or produce adds what fits; a read or
  consume removes what is there; a reset empties the buffer.
\<close>

fun spec_held_after :: "nat \<Rightarrow> operation \<Rightarrow> nat \<Rightarrow> nat" where
  "spec_held_after cap (Push v) h = (if h = cap then h - 1 else h) + 1"
| "spec_held_after cap (Write data n) h = h + min n (cap - h)"
| "spec_held_after cap (Produce n) h = h + min n (cap - h)"
| "spec_held_after cap (Consume n) h = h - min n h"
| "spec_held_after cap (Read dest n) h = h - min n h"
| "spec_held_after cap Reset h = 0"

fun spec_held :: "nat \<Rightarrow> operation list \<Rightarrow> nat \<Rightarrow> nat" where
  "spec_held cap [] h = h"
| "spec_held cap (x # xs) h = spec_held cap xs (spec_held_after cap x h)"

section \<open>Properties\<close>

subsection \<open>Auxiliary facts\<close>

lemma bind_fault_simps [simp]:
  "bind_fault (Inr x) f = f x" "bind_fault (Inl e) f = Inl e"
  by (simp_all add: bind_fault_def)

lemma advance_one_chunk:
  "k \<le> sz - p \<Longrightarrow> (p + min k (sz - p)) mod sz = advance p sz k"
  by (simp add: advance_def min_def)

lemma advance_two_chunks:
  assumes "p < sz" "k \<le> sz" "\<not> k \<le> sz - p"
  shows "((p + min k (sz - p)) mod sz + (k - min k (sz - p))) mod sz = advance p sz k"
proof -
  from assms have m: "min k (sz - p) = sz - p" by simp
  from assms have "(p + k) mod sz = (p + k - sz) mod sz"
    by (intro le_mod_geq) simp
  with assms m show ?thesis by (simp add: advance_def)
qed

lemma count_le_size: "invar rb \<Longrightarrow> count rb \<le> rb_size rb"
  by (auto simp: invar_def count_def split: if_splits)

lemma count_plus_free: "invar rb \<Longrightarrow> count rb + getFree rb = rb_size rb"
  using count_le_size [of rb] by (simp add: getFree_def)

lemma count_pos_size: "invar rb \<Longrightarrow> 0 < count rb \<Longrightarrow> 0 < rb_size rb"
  using count_le_size [of rb] by simp

lemma clear_wrap:
  "(if rb_wrap rb then rb\<lparr>rb_wrap := False\<rparr> else rb) = rb\<lparr>rb_wrap := False\<rparr>"
  by (cases rb) simp

lemma set_wrap_if:
  "\<not> rb_wrap rb \<Longrightarrow>
   (if c then rb\<lparr>rb_end := e, rb_wrap := True\<rparr> else rb\<lparr>rb_end := e\<rparr>) =
   rb\<lparr>rb_end := e, rb_wrap := c\<rparr>"
  by (cases rb) simp

lemma free_not_wrap: "invar rb \<Longrightarrow> 0 < getFree rb \<Longrightarrow> \<not> rb_wrap rb"
  by (auto simp: getFree_def count_def invar_def split: if_splits)

text \<open>What \<open>consume\<close> and \<open>produce\<close> compute in a well-formed state.\<close>

lemma consume_eq:
  assumes "invar rb"
  shows "consume n rb =
           Inr (min n (count rb),
                if min n (count rb) = 0 then rb
                else rb\<lparr>rb_begin := advance (rb_begin rb) (rb_size rb) (min n (count rb)),
                        rb_wrap := False\<rparr>)"
proof (cases "min n (count rb) = 0")
  case True
  then show ?thesis by (simp add: consume_def)
next
  case False
  define k where "k = min n (count rb)"
  define sz where "sz = rb_size rb"
  define p where "p = rb_begin rb"
  from False have "0 < count rb" by simp
  with assms have sz: "0 < sz" unfolding sz_def by (rule count_pos_size)
  with assms have p: "p < sz" by (simp add: invar_def sz_def p_def)
  have k: "k \<le> sz" "k \<noteq> 0"
    using count_le_size [OF assms] False by (simp_all add: k_def sz_def)
  have body: "consume n rb =
     bind_fault (cmod (p + min k (sz - p)) sz) (\<lambda>b1.
     bind_fault (if min k (sz - p) < k then cmod (b1 + (k - min k (sz - p))) sz else Inr b1) (\<lambda>b2.
     Inr (k, rb\<lparr>rb_wrap := False, rb_begin := b2\<rparr>)))"
    unfolding consume_def Let_def clear_wrap k_def [symmetric] sz_def p_def
    using k(2) by (simp cong: if_cong)
  have "consume n rb = Inr (k, rb\<lparr>rb_wrap := False, rb_begin := advance p sz k\<rparr>)"
  proof (cases "k \<le> sz - p")
    case True
    then have fc: "\<not> min k (sz - p) < k" by simp
    show ?thesis
      unfolding body using sz fc advance_one_chunk [OF True] by (simp add: cmod_def)
  next
    case c: False
    then have fc: "min k (sz - p) < k" by simp
    show ?thesis
      unfolding body using sz fc advance_two_chunks [OF p k(1) c] by (simp add: cmod_def)
  qed
  then have "consume n rb =
      Inr (k, if k = 0 then rb else rb\<lparr>rb_begin := advance p sz k, rb_wrap := False\<rparr>)"
    using k(2) by simp
  then show ?thesis unfolding k_def sz_def p_def .
qed

lemma produce_eq:
  assumes "invar rb"
  shows "produce n rb =
           Inr (min n (getFree rb),
                if min n (getFree rb) = 0 then rb
                else rb\<lparr>rb_end := advance (rb_end rb) (rb_size rb) (min n (getFree rb)),
                        rb_wrap := (rb_begin rb =
                          advance (rb_end rb) (rb_size rb) (min n (getFree rb)))\<rparr>)"
proof (cases "min n (getFree rb) = 0")
  case True
  then show ?thesis by (simp add: produce_def)
next
  case False
  define k where "k = min n (getFree rb)"
  define sz where "sz = rb_size rb"
  define p where "p = rb_end rb"
  from False have sz: "0 < sz" by (simp add: getFree_def sz_def)
  with assms have p: "p < sz" by (simp add: invar_def sz_def p_def)
  have k: "k \<le> sz" "k \<noteq> 0" using False by (simp_all add: k_def sz_def getFree_def)
  have body: "produce n rb =
     bind_fault (cmod (p + min k (sz - p)) sz) (\<lambda>e1.
     bind_fault (if min k (sz - p) < k then cmod (e1 + (k - min k (sz - p))) sz else Inr e1) (\<lambda>e2.
     Inr (k, if rb_begin rb = e2 then rb\<lparr>rb_end := e2, rb_wrap := True\<rparr>
             else rb\<lparr>rb_end := e2\<rparr>)))"
    unfolding produce_def Let_def k_def [symmetric] sz_def p_def
    using k(2) by simp
  have "produce n rb = Inr (k, if rb_begin rb = advance p sz k
          then rb\<lparr>rb_end := advance p sz k, rb_wrap := True\<rparr>
          else rb\<lparr>rb_end := advance p sz k\<rparr>)"
  proof (cases "k \<le> sz - p")
    case True
    then have fc: "\<not> min k (sz - p) < k" by simp
    show ?thesis
      unfolding body using sz fc advance_one_chunk [OF True] by (simp add: cmod_def)
  next
    case c: False
    then have fc: "min k (sz - p) < k" by simp
    show ?thesis
      unfolding body using sz fc advance_two_chunks [OF p k(1) c] by (simp add: cmod_def)
  qed
  moreover from False assms have "\<not> rb_wrap rb"
    by (intro free_not_wrap) simp_all
  ultimately have "produce n rb =
      Inr (k, if k = 0 then rb
              else rb\<lparr>rb_end := advance p sz k, rb_wrap := (rb_begin rb = advance p sz k)\<rparr>)"
    using k(2) by (simp add: set_wrap_if)
  then show ?thesis unfolding k_def sz_def p_def .
qed

subsection \<open>Positions and the occupied count\<close>

lemma advance_cases:
  "p < sz \<Longrightarrow> k \<le> sz \<Longrightarrow> advance p sz k = (if p + k < sz then p + k else p + k - sz)"
  by (simp add: advance_def le_mod_geq)

lemma count_occupied: "count rb = occupied (rb_size rb) (rb_begin rb) (rb_end rb) (rb_wrap rb)"
  by (simp add: count_def occupied_def)

lemma occupied_le:  "b < sz \<Longrightarrow> e < sz \<Longrightarrow> occupied sz b e w \<le> sz"
  by (auto simp add: occupied_def)

lemma occupied_consume:
  assumes "b < sz" "e < sz" "w \<longrightarrow> b = e" "0 < k" "k \<le> occupied sz b e w"
  shows "occupied sz (advance b sz k) e False = occupied sz b e w - k"
proof -
  from assms have k: "k \<le> sz" using occupied_le [of b sz e w] by simp
  consider (full) "e = b" "w" | (empty) "e = b" "\<not> w" | (lin) "b < e" | (wrapped) "e < b"
    by fastforce
  then show ?thesis
  proof cases
    case full
    with assms(1,4,5) k show ?thesis
      by (auto simp add: advance_cases occupied_def)
  next
    case empty
    with assms(1,4,5) k show ?thesis
      by (simp add: occupied_def)
  next
    case lin
    with assms k show ?thesis
      by (auto simp add: advance_cases occupied_def)
  next
    case wrapped
    with assms(1,2,4,5) k show ?thesis
      by (auto simp add: advance_cases occupied_def)
  qed
qed


lemma occupied_produce:
  assumes "b < sz" "e < sz" "0 < k" "k \<le> sz - occupied sz b e False"
  shows "occupied sz b (advance e sz k) (b = advance e sz k) = occupied sz b e False + k"
proof -
  from assms have k: "k \<le> sz" by simp
  consider (empty) "e = b" | (lin) "b < e" | (wrapped) "e < b"
    by fastforce
  then show ?thesis
  proof cases
    case empty
    with assms(1,3,4) k show ?thesis
      by (auto simp add: advance_cases occupied_def)
  next
    case lin
    with assms k show ?thesis
      by (auto simp add: advance_cases occupied_def)
  next
    case wrapped
    with assms k show ?thesis
      by (auto simp add: advance_cases occupied_def)
  qed
qed

lemma occupied_end:
  assumes "b < sz" "e < sz" "w \<longrightarrow> b = e"
  shows "advance b sz (occupied sz b e w) = e"
proof -
  have k: "occupied sz b e w \<le> sz" using assms(1,2) by (rule occupied_le)
  consider (full) "e = b" "w" | (empty) "e = b" "\<not> w" | (lin) "b < e" | (wrapped) "e < b"
    by fastforce
  then show ?thesis
  proof cases
    case full
    with assms(1) show ?thesis by (simp add: advance_def occupied_def)
  next
    case empty
    with assms(1) show ?thesis by (simp add: advance_def occupied_def)
  next
    case lin
    with assms(1,2) show ?thesis by (simp add: advance_def occupied_def)
  next
    case wrapped
    with assms(1,2) k show ?thesis by (simp add: advance_cases occupied_def)
  qed
qed

lemma advance_less: "0 < sz \<Longrightarrow> advance p sz k < sz"
  by (simp add: advance_def)

lemma advance_0: "p < sz \<Longrightarrow> advance p sz 0 = p"
  by (simp add: advance_def)

lemma advance_advance: "advance (advance p sz i) sz j = advance p sz (i + j)"
  by (simp add: advance_def mod_add_left_eq add.assoc)

lemma advance_inj:
  assumes "p < sz" "i < sz" "j < sz" "advance p sz i = advance p sz j"
  shows "i = j"
proof -
  have "advance p sz i = (if p + i < sz then p + i else p + i - sz)"
       "advance p sz j = (if p + j < sz then p + j else p + j - sz)"
    using assms(1-3) by (simp_all add: advance_cases)
  with assms show ?thesis by (simp split: if_splits)
qed

lemma invar_bounds:
  "invar rb \<Longrightarrow> 0 < rb_size rb \<Longrightarrow>
   rb_begin rb < rb_size rb \<and> rb_end rb < rb_size rb \<and> length (rb_buf rb) = rb_size rb \<and>
   (rb_wrap rb \<longrightarrow> rb_begin rb = rb_end rb)"
  by (simp add: invar_def)

lemma count_consume:
  assumes "invar rb" "0 < k" "k \<le> count rb"
  shows "count (rb\<lparr>rb_begin := advance (rb_begin rb) (rb_size rb) k, rb_wrap := False\<rparr>) = count rb - k"
proof -
  from assms have sz: "0 < rb_size rb" using count_le_size [of rb] by simp
  note b = invar_bounds [OF assms(1) sz]
  show ?thesis
    using occupied_consume [of "rb_begin rb" "rb_size rb" "rb_end rb" "rb_wrap rb" k] b assms(2,3)
    by (simp add: count_occupied)
qed

lemma count_produce:
  assumes "invar rb" "0 < k" "k \<le> getFree rb"
  shows "count (rb\<lparr>rb_buf := bf, rb_end := advance (rb_end rb) (rb_size rb) k,
                   rb_wrap := (rb_begin rb = advance (rb_end rb) (rb_size rb) k)\<rparr>) = count rb + k"
proof -
  from assms have sz: "0 < rb_size rb" by (simp add: getFree_def)
  note b = invar_bounds [OF assms(1) sz]
  from assms have nw: "\<not> rb_wrap rb" by (intro free_not_wrap) simp_all
  show ?thesis
    using occupied_produce [of "rb_begin rb" "rb_size rb" "rb_end rb" k] b assms(2,3) nw
    by (simp add: count_occupied getFree_def)
qed

lemma end_is_advance_count:
  assumes "invar rb" "0 < rb_size rb"
  shows "advance (rb_begin rb) (rb_size rb) (count rb) = rb_end rb"
  using occupied_end [of "rb_begin rb" "rb_size rb" "rb_end rb" "rb_wrap rb"]
    invar_bounds [OF assms] by (simp add: count_occupied)

lemma invar_consume:
  assumes "invar rb" "0 < rb_size rb"
  shows "invar (rb\<lparr>rb_begin := advance (rb_begin rb) (rb_size rb) k, rb_wrap := False\<rparr>)"
  using assms by (simp add: invar_def advance_less)

lemma invar_produce:
  assumes "invar rb" "0 < rb_size rb" "length b = rb_size rb"
  shows "invar (rb\<lparr>rb_buf := b, rb_end := advance (rb_end rb) (rb_size rb) k,
                   rb_wrap := (rb_begin rb = advance (rb_end rb) (rb_size rb) k)\<rparr>)"
  using assms by (simp add: invar_def advance_less)

lemma full_begin_end: "invar rb \<Longrightarrow> 0 < rb_size rb \<Longrightarrow> count rb = rb_size rb \<Longrightarrow> rb_wrap rb"
  by (auto simp: invar_def count_def split: if_splits)

lemma push_eq:
  assumes "invar rb" "0 < rb_size rb"
  shows "push v rb =
           Inr (if count rb = rb_size rb
                then rb\<lparr>rb_buf := (rb_buf rb)[rb_end rb := v],
                        rb_begin := advance (rb_begin rb) (rb_size rb) 1,
                        rb_end := advance (rb_end rb) (rb_size rb) 1,
                        rb_wrap := True\<rparr>
                else rb\<lparr>rb_buf := (rb_buf rb)[rb_end rb := v],
                        rb_end := advance (rb_end rb) (rb_size rb) 1,
                        rb_wrap := (rb_begin rb = advance (rb_end rb) (rb_size rb) 1)\<rparr>)"
proof -
  note b = invar_bounds [OF assms]
  then have "rb_end rb < rb_size rb" by simp
  then have fc: "min (Suc 0) (rb_size rb - rb_end rb) = Suc 0" by (simp add: min_def)
  show ?thesis
  proof (cases "count rb = rb_size rb")
    case True
    with assms have c: "consume 1 rb =
        Inr (1, rb\<lparr>rb_begin := advance (rb_begin rb) (rb_size rb) 1, rb_wrap := False\<rparr>)"
      by (simp add: consume_eq)
    from True assms have "rb_wrap rb" by (intro full_begin_end)
    with b have be: "rb_end rb = rb_begin rb" by simp
    have "push v rb = Inr (rb\<lparr>rb_buf := (rb_buf rb)[rb_end rb := v],
                        rb_begin := advance (rb_begin rb) (rb_size rb) 1,
                        rb_end := advance (rb_end rb) (rb_size rb) 1,
                        rb_wrap := True\<rparr>)"
      using True assms(2) b fc unfolding push_def c
      by (simp add: store_def cmod_def advance_def be Let_def)
    with True show ?thesis by simp
  next
    case False
    with assms have "0 < getFree rb" using count_le_size [of rb] by (simp add: getFree_def)
    with assms have nw: "\<not> rb_wrap rb" by (intro free_not_wrap)
    have "push v rb = Inr (rb\<lparr>rb_buf := (rb_buf rb)[rb_end rb := v],
                        rb_end := advance (rb_end rb) (rb_size rb) 1,
                        rb_wrap := (rb_begin rb = advance (rb_end rb) (rb_size rb) 1)\<rparr>)"
      using False assms(2) b nw fc unfolding push_def
      by (simp add: store_def cmod_def advance_def set_wrap_if Let_def)
    with False show ?thesis by simp
  qed
qed

subsection \<open>What the copies leave behind\<close>

lemma memcpy_spliced:
  "d + len \<le> length dst \<Longrightarrow> s + len \<le> length src \<Longrightarrow>
   memcpy dst d src s len = Inr (spliced dst d src s len)"
  by (simp add: memcpy_def spliced_def)

lemma length_spliced:
  "d + len \<le> length dst \<Longrightarrow> s + len \<le> length src \<Longrightarrow>
   length (spliced dst d src s len) = length dst"
  by (simp add: spliced_def)

lemma nth_spliced:
  assumes "d + len \<le> length dst" "s + len \<le> length src" "j < length dst"
  shows "spliced dst d src s len ! j =
           (if d \<le> j \<and> j < d + len then src ! (s + (j - d)) else dst ! j)"
proof -
  consider (before) "j < d" | (inside) "d \<le> j" "j < d + len" | (after) "d + len \<le> j"
    by linarith
  then show ?thesis
  proof cases
    case before
    with assms show ?thesis by (simp add: spliced_def nth_append)
  next
    case inside
    then have "j - d < len" by linarith
    with inside assms show ?thesis by (simp add: spliced_def nth_append)
  next
    case after
    then have "\<not> j - d < len" "\<not> j < d" by linarith+
    with after assms show ?thesis by (simp add: spliced_def nth_append)
  qed
qed

text \<open>The storage after the one or two copies of \<open>write_rb\<close>.\<close>

lemma write_eq:
  assumes "invar rb" "min n (getFree rb) \<le> length data"
  shows "\<exists>B. write_rb data n rb =
           Inr (min n (getFree rb),
                if min n (getFree rb) = 0 then rb
                else rb\<lparr>rb_buf := B,
                        rb_end := advance (rb_end rb) (rb_size rb) (min n (getFree rb)),
                        rb_wrap := (rb_begin rb =
                          advance (rb_end rb) (rb_size rb) (min n (getFree rb)))\<rparr>) \<and>
         length B = rb_size rb \<and>
         (\<forall>j<rb_size rb. B ! advance (rb_end rb) (rb_size rb) j =
            (if j < min n (getFree rb) then data ! j
             else rb_buf rb ! advance (rb_end rb) (rb_size rb) j))"
proof (cases "min n (getFree rb) = 0")
  case True
  then have "write_rb data n rb = Inr (min n (getFree rb), rb)" by (simp add: write_rb_def)
  with True show ?thesis
    by (intro exI [of _ "rb_buf rb"]) (simp add: invar_def assms(1) [unfolded invar_def])
next
  case False
  define k where "k = min n (getFree rb)"
  define sz where "sz = rb_size rb"
  define p where "p = rb_end rb"
  define buf where "buf = rb_buf rb"
  from False have sz: "0 < sz" by (simp add: getFree_def sz_def)
  with assms have p: "p < sz" and len: "length buf = sz"
    by (simp_all add: invar_def sz_def p_def buf_def)
  have k: "k \<le> sz" "k \<noteq> 0" "k \<le> length data"
    using False assms(2) by (simp_all add: k_def sz_def getFree_def)
  from False assms have nw: "\<not> rb_wrap rb" by (intro free_not_wrap) simp_all
  have body: "write_rb data n rb =
     bind_fault (memcpy buf p data 0 (min k (sz - p))) (\<lambda>buf1.
     bind_fault (cmod (p + min k (sz - p)) sz) (\<lambda>e1.
     bind_fault (if min k (sz - p) < k
                 then bind_fault (memcpy buf1 e1 data (min k (sz - p)) (k - min k (sz - p))) (\<lambda>buf2.
                      bind_fault (cmod (e1 + (k - min k (sz - p))) sz) (\<lambda>e2. Inr (buf2, e2)))
                 else Inr (buf1, e1)) (\<lambda>(buf2, e2).
     Inr (k, rb\<lparr>rb_buf := buf2, rb_end := e2, rb_wrap := (rb_begin rb = e2)\<rparr>))))"
    unfolding write_rb_def Let_def k_def [symmetric] sz_def p_def buf_def
    using k(2) nw by (simp cong: if_cong add: set_wrap_if)
  have "\<exists>B. write_rb data n rb =
           Inr (k, rb\<lparr>rb_buf := B, rb_end := advance p sz k,
                        rb_wrap := (rb_begin rb = advance p sz k)\<rparr>) \<and>
         length B = sz \<and>
         (\<forall>j<sz. B ! advance p sz j = (if j < k then data ! j else buf ! advance p sz j))"
  proof (cases "k \<le> sz - p")
    case True
    then have fc: "min k (sz - p) = k" by simp
    define B where "B = spliced buf p data 0 k"
    from True p len k have bounds: "p + k \<le> length buf" "0 + k \<le> length data" by simp_all
    have m: "memcpy buf p data 0 k = Inr B"
      unfolding B_def using bounds by (rule memcpy_spliced)
    have w: "write_rb data n rb = Inr (k, rb\<lparr>rb_buf := B, rb_end := advance p sz k,
                        rb_wrap := (rb_begin rb = advance p sz k)\<rparr>)"
      unfolding body fc using sz m by (simp add: cmod_def advance_def)
    have l: "length B = sz" unfolding B_def using length_spliced [OF bounds] len by simp
    have n: "B ! advance p sz j = (if j < k then data ! j else buf ! advance p sz j)" if "j < sz" for j
    proof -
      have a: "advance p sz j = (if p + j < sz then p + j else p + j - sz)"
        using p that by (simp add: advance_cases)
      have "advance p sz j < length buf" using sz len by (simp add: advance_less)
      from nth_spliced [OF bounds this]
      have "B ! advance p sz j =
         (if p \<le> advance p sz j \<and> advance p sz j < p + k then data ! (advance p sz j - p)
          else buf ! advance p sz j)" by (simp add: B_def)
      also have "\<dots> = (if j < k then data ! j else buf ! advance p sz j)"
        using True p that unfolding a by auto
      finally show ?thesis .
    qed
    from w l n show ?thesis by blast
  next
    case c: False
    then have fc: "min k (sz - p) = sz - p" by simp
    have lt: "sz - p < k" using c by simp
    define B1 where "B1 = spliced buf p data 0 (sz - p)"
    define B where "B = spliced B1 0 data (sz - p) (k - (sz - p))"
    from p len k c have bounds1: "p + (sz - p) \<le> length buf" "0 + (sz - p) \<le> length data"
      by simp_all
    have l1: "length B1 = sz" unfolding B1_def using length_spliced [OF bounds1] len by simp
    from p k c l1 have bounds2: "0 + (k - (sz - p)) \<le> length B1"
      "(sz - p) + (k - (sz - p)) \<le> length data" by simp_all
    have m1: "memcpy buf p data 0 (sz - p) = Inr B1"
      unfolding B1_def using bounds1 by (rule memcpy_spliced)
    have m2: "memcpy B1 0 data (sz - p) (k - (sz - p)) = Inr B"
      unfolding B_def using bounds2 by (rule memcpy_spliced)
    have e1: "(p + (sz - p)) mod sz = 0" using p by simp
    have w: "write_rb data n rb = Inr (k, rb\<lparr>rb_buf := B, rb_end := advance p sz k,
                        rb_wrap := (rb_begin rb = advance p sz k)\<rparr>)"
      unfolding body fc using sz m1 m2 lt e1 advance_two_chunks [OF p k(1) c, unfolded fc]
      by (simp add: cmod_def)
    have l: "length B = sz" unfolding B_def using length_spliced [OF bounds2] l1 by simp
    have n: "B ! advance p sz j = (if j < k then data ! j else buf ! advance p sz j)" if "j < sz" for j
    proof -
      have a: "advance p sz j = (if p + j < sz then p + j else p + j - sz)"
        using p that by (simp add: advance_cases)
      have al: "advance p sz j < sz" using sz by (simp add: advance_less)
      have "B ! advance p sz j =
         (if advance p sz j < k - (sz - p) then data ! ((sz - p) + advance p sz j)
          else B1 ! advance p sz j)"
        using nth_spliced [OF bounds2, of "advance p sz j"] al l1 by (simp add: B_def)
      moreover have "B1 ! advance p sz j =
         (if p \<le> advance p sz j then data ! (advance p sz j - p) else buf ! advance p sz j)"
        using nth_spliced [OF bounds1, of "advance p sz j"] al len p by (simp add: B1_def)
      ultimately show ?thesis
        using c p k(1) that unfolding a by (auto split: if_splits)
    qed
    from w l n show ?thesis by blast
  qed
  then have "\<exists>B. write_rb data n rb =
           Inr (k, if k = 0 then rb
                   else rb\<lparr>rb_buf := B, rb_end := advance p sz k,
                        rb_wrap := (rb_begin rb = advance p sz k)\<rparr>) \<and>
         length B = sz \<and>
         (\<forall>j<sz. B ! advance p sz j = (if j < k then data ! j else buf ! advance p sz j))"
    using k(2) by simp
  then show ?thesis
    unfolding k_def sz_def p_def buf_def .
qed

lemma length_contents [simp]: "length (contents rb) = count rb"
  by (simp add: contents_def)

lemma nth_contents:
  "i < count rb \<Longrightarrow> contents rb ! i = rb_buf rb ! advance (rb_begin rb) (rb_size rb) i"
  by (simp add: contents_def)

lemma read_eq:
  assumes "invar rb" "min n (count rb) \<le> length dest"
  shows "read_rb dest n rb =
           Inr (min n (count rb),
                take (min n (count rb)) (contents rb) @ drop (min n (count rb)) dest,
                if min n (count rb) = 0 then rb
                else rb\<lparr>rb_begin := advance (rb_begin rb) (rb_size rb) (min n (count rb)),
                        rb_wrap := False\<rparr>)"
proof (cases "min n (count rb) = 0")
  case True
  then show ?thesis by (simp add: read_rb_def)
next
  case False
  define k where "k = min n (count rb)"
  define sz where "sz = rb_size rb"
  define p where "p = rb_begin rb"
  define buf where "buf = rb_buf rb"
  from False have "0 < count rb" by simp
  with assms have sz: "0 < sz" unfolding sz_def by (intro count_pos_size)
  with assms have p: "p < sz" and len: "length buf = sz"
    by (simp_all add: invar_def sz_def p_def buf_def)
  have k: "k \<le> sz" "k \<noteq> 0" "k \<le> length dest" "k \<le> count rb"
    using count_le_size [OF assms(1)] False assms(2) by (simp_all add: k_def sz_def)
  have body: "read_rb dest n rb =
     bind_fault (memcpy dest 0 buf p (min k (sz - p))) (\<lambda>dest1.
     bind_fault (cmod (p + min k (sz - p)) sz) (\<lambda>b1.
     bind_fault (if min k (sz - p) < k
                 then bind_fault (memcpy dest1 (min k (sz - p)) buf b1 (k - min k (sz - p))) (\<lambda>dest2.
                      bind_fault (cmod (b1 + (k - min k (sz - p))) sz) (\<lambda>b2. Inr (dest2, b2)))
                 else Inr (dest1, b1)) (\<lambda>(dest2, b2).
     Inr (k, dest2, rb\<lparr>rb_wrap := False, rb_begin := b2\<rparr>))))"
    unfolding read_rb_def Let_def clear_wrap k_def [symmetric] sz_def p_def buf_def
    using k(2) by (simp cong: if_cong)
  have target: "(take k (contents rb) @ drop k dest) ! j =
      (if j < k then buf ! advance p sz j else dest ! j)" if "j < length dest" for j
    using that k by (simp add: nth_append nth_contents buf_def p_def sz_def)
  have tl: "length (take k (contents rb) @ drop k dest) = length dest"
    using k by simp
  have "read_rb dest n rb =
      Inr (k, take k (contents rb) @ drop k dest, rb\<lparr>rb_wrap := False, rb_begin := advance p sz k\<rparr>)"
  proof (cases "k \<le> sz - p")
    case True
    then have fc: "min k (sz - p) = k" by simp
    define D where "D = spliced dest 0 buf p k"
    from True p len k have bounds: "0 + k \<le> length dest" "p + k \<le> length buf" by simp_all
    have m: "memcpy dest 0 buf p k = Inr D"
      unfolding D_def using bounds by (rule memcpy_spliced)
    have r: "read_rb dest n rb = Inr (k, D, rb\<lparr>rb_wrap := False, rb_begin := advance p sz k\<rparr>)"
      unfolding body fc using sz m by (simp add: cmod_def advance_def)
    have "D = take k (contents rb) @ drop k dest"
    proof (rule nth_equalityI)
      show "length D = length (take k (contents rb) @ drop k dest)"
        unfolding tl D_def using bounds by (rule length_spliced)
    next
      fix j assume "j < length D"
      then have j: "j < length dest" unfolding D_def using length_spliced [OF bounds] by simp
      have "D ! j = (if j < k then buf ! (p + j) else dest ! j)"
        unfolding D_def using nth_spliced [OF bounds j] by simp
      moreover have "advance p sz j = p + j" if "j < k"
        using that True p by (simp add: advance_cases)
      ultimately show "D ! j = (take k (contents rb) @ drop k dest) ! j"
        unfolding target [OF j] by simp
    qed
    with r show ?thesis by simp
  next
    case c: False
    then have fc: "min k (sz - p) = sz - p" by simp
    have lt: "sz - p < k" using c by simp
    define D1 where "D1 = spliced dest 0 buf p (sz - p)"
    define D where "D = spliced D1 (sz - p) buf 0 (k - (sz - p))"
    from p len k c have bounds1: "0 + (sz - p) \<le> length dest" "p + (sz - p) \<le> length buf"
      by simp_all
    have l1: "length D1 = length dest" unfolding D1_def using bounds1 by (rule length_spliced)
    from p k c l1 len have bounds2: "(sz - p) + (k - (sz - p)) \<le> length D1"
      "0 + (k - (sz - p)) \<le> length buf" by simp_all
    have m1: "memcpy dest 0 buf p (sz - p) = Inr D1"
      unfolding D1_def using bounds1 by (rule memcpy_spliced)
    have m2: "memcpy D1 (sz - p) buf 0 (k - (sz - p)) = Inr D"
      unfolding D_def using bounds2 by (rule memcpy_spliced)
    have e1: "(p + (sz - p)) mod sz = 0" using p by simp
    have r: "read_rb dest n rb = Inr (k, D, rb\<lparr>rb_wrap := False, rb_begin := advance p sz k\<rparr>)"
      unfolding body fc using sz m1 m2 lt e1 advance_two_chunks [OF p k(1) c, unfolded fc]
      by (simp add: cmod_def)
    have "D = take k (contents rb) @ drop k dest"
    proof (rule nth_equalityI)
      show "length D = length (take k (contents rb) @ drop k dest)"
        unfolding tl D_def using length_spliced [OF bounds2] l1 by simp
    next
      fix j assume "j < length D"
      then have j: "j < length dest" unfolding D_def using length_spliced [OF bounds2] l1 by simp
      then have j1: "j < length D1" using l1 by simp
      have "D ! j = (if sz - p \<le> j \<and> j < k then buf ! (j - (sz - p)) else D1 ! j)"
        unfolding D_def using nth_spliced [OF bounds2 j1] lt by simp
      moreover have "D1 ! j = (if j < sz - p then buf ! (p + j) else dest ! j)"
        unfolding D1_def using nth_spliced [OF bounds1 j] by simp
      moreover have "advance p sz j = (if p + j < sz then p + j else p + j - sz)" if "j < k"
        using that p k(1) by (simp add: advance_cases)
      ultimately show "D ! j = (take k (contents rb) @ drop k dest) ! j"
        unfolding target [OF j] using p lt by (auto simp: less_diff_conv add.commute)
    qed
    with r show ?thesis by simp
  qed
  then have "read_rb dest n rb =
      Inr (k, take k (contents rb) @ drop k dest,
           if k = 0 then rb else rb\<lparr>rb_begin := advance p sz k, rb_wrap := False\<rparr>)"
    using k(2) by simp
  then show ?thesis unfolding k_def sz_def p_def .
qed

subsection \<open>Faults of the copies and of a push without storage\<close>

lemma memcpy_short:
  "\<not> s + len \<le> length src \<Longrightarrow> memcpy dst d src s len = Inl OutOfBounds"
  "\<not> d + len \<le> length dst \<Longrightarrow> memcpy dst d src s len = Inl OutOfBounds"
  by (simp_all add: memcpy_def)

lemma memcpy_cases:
  "memcpy dst d src s len = Inl OutOfBounds \<or> (\<exists>r. memcpy dst d src s len = Inr r)"
  by (simp add: memcpy_def)

lemma write_short:
  assumes "invar rb" "\<not> min n (getFree rb) \<le> length data"
  shows "write_rb data n rb = Inl OutOfBounds"
proof -
  define k where "k = min n (getFree rb)"
  define sz where "sz = rb_size rb"
  define p where "p = rb_end rb"
  define buf where "buf = rb_buf rb"
  from assms(2) have k: "k \<noteq> 0" "\<not> k \<le> length data" by (simp_all add: k_def)
  then have sz: "0 < sz" by (auto simp: getFree_def sz_def k_def)
  with assms have p: "p < sz" by (simp add: invar_def sz_def p_def)
  have body: "write_rb data n rb =
     bind_fault (memcpy buf p data 0 (min k (sz - p))) (\<lambda>buf1.
     bind_fault (cmod (p + min k (sz - p)) sz) (\<lambda>e1.
     bind_fault (if min k (sz - p) < k
                 then bind_fault (memcpy buf1 e1 data (min k (sz - p)) (k - min k (sz - p))) (\<lambda>buf2.
                      bind_fault (cmod (e1 + (k - min k (sz - p))) sz) (\<lambda>e2. Inr (buf2, e2)))
                 else Inr (buf1, e1)) (\<lambda>(buf2, e2).
     Inr (k, if rb_begin rb = e2 then rb\<lparr>rb_buf := buf2, rb_end := e2, rb_wrap := True\<rparr>
             else rb\<lparr>rb_buf := buf2, rb_end := e2\<rparr>))))"
    unfolding write_rb_def Let_def k_def [symmetric] sz_def p_def buf_def
    using k(1) by (simp cong: if_cong)
  show ?thesis
  proof (cases "k \<le> sz - p")
    case True
    then have fc: "min k (sz - p) = k" by simp
    from k(2) have "memcpy buf p data 0 k = Inl OutOfBounds" by (intro memcpy_short(1)) simp
    then show ?thesis unfolding body fc by simp
  next
    case False
    then have fc: "min k (sz - p) = sz - p" and lt: "sz - p < k" by simp_all
    from False k(2) have m2: "memcpy b1 e1 data (sz - p) (k - (sz - p)) = Inl OutOfBounds" for b1 e1
      by (intro memcpy_short(1)) simp
    from memcpy_cases [of buf p data 0 "sz - p"] show ?thesis
    proof
      assume "memcpy buf p data 0 (sz - p) = Inl OutOfBounds"
      then show ?thesis unfolding body fc by simp
    next
      assume "\<exists>r. memcpy buf p data 0 (sz - p) = Inr r"
      then obtain r where "memcpy buf p data 0 (sz - p) = Inr r" ..
      then show ?thesis unfolding body fc using sz lt m2 by (simp add: cmod_def)
    qed
  qed
qed

lemma read_short:
  assumes "invar rb" "\<not> min n (count rb) \<le> length dest"
  shows "read_rb dest n rb = Inl OutOfBounds"
proof -
  define k where "k = min n (count rb)"
  define sz where "sz = rb_size rb"
  define p where "p = rb_begin rb"
  define buf where "buf = rb_buf rb"
  from assms(2) have k: "k \<noteq> 0" "\<not> k \<le> length dest" by (simp_all add: k_def)
  then have "0 < count rb" by (simp add: k_def)
  with assms have sz: "0 < sz" unfolding sz_def by (intro count_pos_size)
  with assms have p: "p < sz" by (simp add: invar_def sz_def p_def)
  have body: "read_rb dest n rb =
     bind_fault (memcpy dest 0 buf p (min k (sz - p))) (\<lambda>dest1.
     bind_fault (cmod (p + min k (sz - p)) sz) (\<lambda>b1.
     bind_fault (if min k (sz - p) < k
                 then bind_fault (memcpy dest1 (min k (sz - p)) buf b1 (k - min k (sz - p))) (\<lambda>dest2.
                      bind_fault (cmod (b1 + (k - min k (sz - p))) sz) (\<lambda>b2. Inr (dest2, b2)))
                 else Inr (dest1, b1)) (\<lambda>(dest2, b2).
     Inr (k, dest2, rb\<lparr>rb_wrap := False, rb_begin := b2\<rparr>))))"
    unfolding read_rb_def Let_def clear_wrap k_def [symmetric] sz_def p_def buf_def
    using k(1) by (simp cong: if_cong)
  show ?thesis
  proof (cases "k \<le> sz - p")
    case True
    then have fc: "min k (sz - p) = k" by simp
    from k(2) have "memcpy dest 0 buf p k = Inl OutOfBounds" by (intro memcpy_short(2)) simp
    then show ?thesis unfolding body fc by simp
  next
    case False
    then have fc: "min k (sz - p) = sz - p" and lt: "sz - p < k" by simp_all
    from memcpy_cases [of dest 0 buf p "sz - p"] show ?thesis
    proof
      assume "memcpy dest 0 buf p (sz - p) = Inl OutOfBounds"
      then show ?thesis unfolding body fc by simp
    next
      assume "\<exists>r. memcpy dest 0 buf p (sz - p) = Inr r"
      then obtain r where r: "memcpy dest 0 buf p (sz - p) = Inr r" ..
      then have "length r = length dest" by (auto simp: memcpy_def split: if_splits)
      with False k(2) have "memcpy r (sz - p) buf e1 (k - (sz - p)) = Inl OutOfBounds" for e1
        by (intro memcpy_short(2)) simp
      with r show ?thesis unfolding body fc using sz lt by (simp add: cmod_def)
    qed
  qed
qed

lemma push_zero_capacity:
  "invar rb \<Longrightarrow> rb_size rb = 0 \<Longrightarrow> push v rb = Inl OutOfBounds"
  by (simp add: push_def invar_def count_def consume_def store_def)

subsection \<open>Every operation keeps the state well-formed\<close>

lemma invar_RingBuffer: "invar (RingBuffer sz)"
  by (simp add: invar_def RingBuffer_def)

lemma count_RingBuffer: "count (RingBuffer sz) = 0"
  by (simp add: count_def RingBuffer_def)

lemma step_produced:
  assumes "invar rb" "length B = rb_size rb" "k \<le> getFree rb"
  defines "rb' \<equiv> (if k = 0 then rb
                   else rb\<lparr>rb_buf := B, rb_end := advance (rb_end rb) (rb_size rb) k,
                           rb_wrap := (rb_begin rb = advance (rb_end rb) (rb_size rb) k)\<rparr>)"
  shows "invar rb' \<and> rb_size rb' = rb_size rb \<and> count rb' = count rb + k"
proof (cases "k = 0")
  case True
  with assms(1) show ?thesis by (simp add: rb'_def)
next
  case False
  with assms(3) have sz: "0 < rb_size rb" by (simp add: getFree_def)
  from False have k: "0 < k" by simp
  show ?thesis
    using False invar_produce [OF assms(1) sz assms(2)] count_produce [OF assms(1) k assms(3)]
    by (simp add: rb'_def)
qed

lemma step_consumed:
  assumes "invar rb" "k \<le> count rb"
  defines "rb' \<equiv> (if k = 0 then rb
                   else rb\<lparr>rb_begin := advance (rb_begin rb) (rb_size rb) k, rb_wrap := False\<rparr>)"
  shows "invar rb' \<and> rb_size rb' = rb_size rb \<and> count rb' = count rb - k"
proof (cases "k = 0")
  case True
  with assms(1) show ?thesis by (simp add: rb'_def)
next
  case False
  with assms have sz: "0 < rb_size rb" using count_le_size [of rb] by simp
  from False have k: "0 < k" by simp
  show ?thesis
    using False invar_consume [OF assms(1) sz] count_consume [OF assms(1) k assms(2)]
    by (simp add: rb'_def)
qed

lemma step_pushed:
  assumes "invar rb" "push v rb = Inr rb'"
  shows "invar rb' \<and> rb_size rb' = rb_size rb \<and>
         count rb' = (if count rb = rb_size rb then count rb - 1 else count rb) + 1"
proof -
  from assms have sz: "0 < rb_size rb" using push_zero_capacity [of rb v] by (cases "rb_size rb = 0") auto
  note b = invar_bounds [OF assms(1) sz]
  show ?thesis
  proof (cases "count rb = rb_size rb")
    case True
    with assms(1) sz have "rb_wrap rb" by (intro full_begin_end)
    with b have be: "rb_end rb = rb_begin rb" by simp
    from True assms sz have "rb' = rb\<lparr>rb_buf := (rb_buf rb)[rb_end rb := v],
                        rb_begin := advance (rb_begin rb) (rb_size rb) 1,
                        rb_end := advance (rb_end rb) (rb_size rb) 1,
                        rb_wrap := True\<rparr>" by (simp add: push_eq)
    with True sz b show ?thesis
      by (simp add: be invar_def advance_less count_def)
  next
    case False
    then have free: "1 \<le> getFree rb" using count_le_size [OF assms(1)] by (simp add: getFree_def)
    from False assms sz have "rb' = (if (1::nat) = 0 then rb else
         rb\<lparr>rb_buf := (rb_buf rb)[rb_end rb := v],
                        rb_end := advance (rb_end rb) (rb_size rb) 1,
                        rb_wrap := (rb_begin rb = advance (rb_end rb) (rb_size rb) 1)\<rparr>)"
      by (simp add: push_eq)
    with False step_produced [OF assms(1) _ free, of "(rb_buf rb)[rb_end rb := v]"] b
    show ?thesis by simp
  qed
qed

lemma step_written:
  assumes "invar rb" "write_rb data n rb = Inr (k, rb')"
  shows "invar rb' \<and> rb_size rb' = rb_size rb \<and> count rb' = count rb + min n (getFree rb)"
proof -
  from assms have le: "min n (getFree rb) \<le> length data"
    using write_short [of rb n data] by (cases "min n (getFree rb) \<le> length data") auto
  from write_eq [OF assms(1) le] assms(2) obtain B where
    rb': "rb' = (if min n (getFree rb) = 0 then rb
                else rb\<lparr>rb_buf := B,
                        rb_end := advance (rb_end rb) (rb_size rb) (min n (getFree rb)),
                        rb_wrap := (rb_begin rb =
                          advance (rb_end rb) (rb_size rb) (min n (getFree rb)))\<rparr>)"
    and B: "length B = rb_size rb" by auto
  show ?thesis
    unfolding rb' using assms(1) B by (intro step_produced) simp_all
qed

lemma step_op:
  assumes "invar rb" "apply_operation x rb = Inr rb'"
  shows "invar rb' \<and> rb_size rb' = rb_size rb \<and>
         count rb' = spec_held_after (rb_size rb) x (count rb)"
proof (cases x)
  case (Push v)
  with assms show ?thesis using step_pushed [of rb v rb'] by simp
next
  case (Write data n)
  with assms(2) obtain k where "write_rb data n rb = Inr (k, rb')"
    by (cases "write_rb data n rb") auto
  from step_written [OF assms(1) this] Write show ?thesis by (simp add: getFree_def)
next
  case (Produce n)
  with assms have "rb' = (if min n (getFree rb) = 0 then rb
             else rb\<lparr>rb_buf := rb_buf rb,
                     rb_end := advance (rb_end rb) (rb_size rb) (min n (getFree rb)),
                     rb_wrap := (rb_begin rb =
                        advance (rb_end rb) (rb_size rb) (min n (getFree rb)))\<rparr>)"
    by (auto simp add: produce_eq)
  moreover from assms(1) have "length (rb_buf rb) = rb_size rb" by (simp add: invar_def)
  ultimately show ?thesis
    using step_produced [OF assms(1), of "rb_buf rb" "min n (getFree rb)"] Produce
    by (simp add: getFree_def)
next
  case (Consume n)
  with assms have "rb' = (if min n (count rb) = 0 then rb
             else rb\<lparr>rb_begin := advance (rb_begin rb) (rb_size rb) (min n (count rb)),
                     rb_wrap := False\<rparr>)"
    by (simp add: consume_eq)
  then show ?thesis
    using step_consumed [OF assms(1), of "min n (count rb)"] Consume by simp
next
  case (Read dest n)
  from assms have le: "min n (count rb) \<le> length dest"
    using read_short [of rb n dest] Read by (cases "min n (count rb) \<le> length dest") auto
  with assms Read have "rb' = (if min n (count rb) = 0 then rb
             else rb\<lparr>rb_begin := advance (rb_begin rb) (rb_size rb) (min n (count rb)),
                     rb_wrap := False\<rparr>)"
    by (simp add: read_eq)
  then show ?thesis
    using step_consumed [OF assms(1), of "min n (count rb)"] Read by simp
next
  case Reset
  with assms have "rb' = (if count rb = 0 then rb
             else rb\<lparr>rb_begin := advance (rb_begin rb) (rb_size rb) (count rb),
                     rb_wrap := False\<rparr>)"
    by (auto simp add: reset_def consume_eq)
  then show ?thesis
    using step_consumed [OF assms(1), of "count rb"] Reset by simp
qed

lemma run_invar:
  assumes "invar rb" "run xs rb = Inr rb'"
  shows "invar rb' \<and> rb_size rb' = rb_size rb \<and> count rb' = spec_held (rb_size rb) xs (count rb)"
  using assms
proof (induction xs arbitrary: rb)
  case Nil
  then show ?case by simp
next
  case (Cons x xs)
  from Cons.prems(2) obtain rb1 where
    x: "apply_operation x rb = Inr rb1" and xs: "run xs rb1 = Inr rb'"
    by (cases "apply_operation x rb") auto
  from step_op [OF Cons.prems(1) x] Cons.IH [OF _ xs] show ?case by simp
qed

lemma size_RingBuffer: "rb_size (RingBuffer sz) = sz"
  by (simp add: RingBuffer_def)

subsection \<open>The logical contents after each operation\<close>

lemma advance_wrap: "advance p sz (i + sz) = advance p sz i"
  by (simp add: advance_def add.assoc [symmetric])

lemma contents_consumed:
  assumes "invar rb" "0 < k" "k \<le> count rb"
  shows "contents (rb\<lparr>rb_begin := advance (rb_begin rb) (rb_size rb) k, rb_wrap := False\<rparr>) =
           drop k (contents rb)"
proof (rule nth_equalityI)
  show "length (contents (rb\<lparr>rb_begin := advance (rb_begin rb) (rb_size rb) k, rb_wrap := False\<rparr>)) =
        length (drop k (contents rb))"
    using count_consume [OF assms] by simp
next
  fix i
  assume "i < length (contents (rb\<lparr>rb_begin := advance (rb_begin rb) (rb_size rb) k, rb_wrap := False\<rparr>))"
  then have i: "i < count rb - k" using count_consume [OF assms] by simp
  then have "k + i < count rb" by simp
  then have "drop k (contents rb) ! i = rb_buf rb ! advance (rb_begin rb) (rb_size rb) (k + i)"
    using assms(3) by (simp add: nth_contents)
  moreover have "contents (rb\<lparr>rb_begin := advance (rb_begin rb) (rb_size rb) k, rb_wrap := False\<rparr>) ! i =
      rb_buf rb ! advance (advance (rb_begin rb) (rb_size rb) k) (rb_size rb) i"
    using i count_consume [OF assms] by (simp add: nth_contents)
  ultimately show "contents (rb\<lparr>rb_begin := advance (rb_begin rb) (rb_size rb) k, rb_wrap := False\<rparr>) ! i =
      drop k (contents rb) ! i"
    by (simp add: advance_advance)
qed

lemma contents_produced:
  assumes "invar rb" "0 < k" "k \<le> getFree rb" "k \<le> length xs"
    and B: "\<forall>j<rb_size rb. B ! advance (rb_end rb) (rb_size rb) j =
              (if j < k then xs ! j else rb_buf rb ! advance (rb_end rb) (rb_size rb) j)"
  defines "rb' \<equiv> rb\<lparr>rb_buf := B, rb_end := advance (rb_end rb) (rb_size rb) k,
                     rb_wrap := (rb_begin rb = advance (rb_end rb) (rb_size rb) k)\<rparr>"
  shows "contents rb' = contents rb @ take k xs"
proof (rule nth_equalityI)
  have c': "count rb' = count rb + k"
    unfolding rb'_def using assms(1-3) by (rule count_produce)
  then show "length (contents rb') = length (contents rb @ take k xs)"
    using assms(4) by simp
  fix i
  assume "i < length (contents rb')"
  then have i: "i < count rb + k" using c' by simp
  define sz where "sz = rb_size rb"
  define c where "c = count rb"
  from assms(2,3) have sz: "0 < sz" by (simp add: getFree_def sz_def)
  have e: "rb_end rb = advance (rb_begin rb) sz c"
    unfolding sz_def c_def using assms(1) sz [unfolded sz_def] by (simp add: end_is_advance_count)
  have free: "c + k \<le> sz" using assms(3) count_le_size [OF assms(1)]
    by (simp add: getFree_def sz_def c_def)
  have l: "contents rb' ! i = B ! advance (rb_begin rb) sz i"
    using i c' by (simp add: nth_contents) (simp add: rb'_def sz_def)
  show "contents rb' ! i = (contents rb @ take k xs) ! i"
  proof (cases "i < c")
    case True
    define j where "j = i + sz - c"
    from True free have j: "j < sz" "\<not> j < k" by (simp_all add: j_def)
    have "advance (rb_end rb) sz j = advance (rb_begin rb) sz (i + sz)"
      unfolding e advance_advance using True free by (simp add: j_def)
    then have a: "advance (rb_end rb) sz j = advance (rb_begin rb) sz i"
      by (simp add: advance_wrap)
    from B j have "B ! advance (rb_end rb) sz j = rb_buf rb ! advance (rb_end rb) sz j"
      by (simp add: sz_def)
    then have "B ! advance (rb_begin rb) sz i = rb_buf rb ! advance (rb_begin rb) sz i"
      unfolding a .
    with True show ?thesis
      unfolding l by (simp add: nth_append nth_contents c_def sz_def)
  next
    case False
    define j where "j = i - c"
    from False i have j: "j < k" "j < sz" using free by (simp_all add: j_def c_def)
    have a: "advance (rb_end rb) sz j = advance (rb_begin rb) sz i"
      unfolding e advance_advance using False by (simp add: j_def)
    from B j have "B ! advance (rb_end rb) sz j = xs ! j"
      by (simp add: sz_def)
    then have "B ! advance (rb_begin rb) sz i = xs ! (i - c)"
      unfolding a unfolding j_def .
    with False j show ?thesis
      unfolding l by (simp add: nth_append c_def j_def)
  qed
qed

lemma contents_stored:
  assumes "invar rb" "count rb < rb_size rb"
  shows "contents (rb\<lparr>rb_buf := (rb_buf rb)[rb_end rb := v],
                     rb_end := advance (rb_end rb) (rb_size rb) 1,
                     rb_wrap := (rb_begin rb = advance (rb_end rb) (rb_size rb) 1)\<rparr>) =
         contents rb @ [v]"
proof -
  from assms have sz: "0 < rb_size rb" by simp
  note b = invar_bounds [OF assms(1) sz]
  have free: "1 \<le> getFree rb" using assms(2) by (simp add: getFree_def)
  have "(rb_buf rb)[rb_end rb := v] ! advance (rb_end rb) (rb_size rb) j =
          (if j < 1 then [v] ! j else rb_buf rb ! advance (rb_end rb) (rb_size rb) j)"
    if "j < rb_size rb" for j
  proof (cases "j = 0")
    case True
    with b show ?thesis by (simp add: advance_0)
  next
    case False
    have "advance (rb_end rb) (rb_size rb) j \<noteq> rb_end rb"
    proof
      assume "advance (rb_end rb) (rb_size rb) j = rb_end rb"
      with b have "advance (rb_end rb) (rb_size rb) j = advance (rb_end rb) (rb_size rb) 0"
        by (simp add: advance_0)
      with b that sz have "j = 0" by (intro advance_inj [of "rb_end rb" "rb_size rb" j 0]) simp_all
      with False show False ..
    qed
    with False show ?thesis by simp
  qed
  then have B: "\<forall>j<rb_size rb. (rb_buf rb)[rb_end rb := v] ! advance (rb_end rb) (rb_size rb) j =
          (if j < 1 then [v] ! j else rb_buf rb ! advance (rb_end rb) (rb_size rb) j)"
    by blast
  from contents_produced [OF assms(1) _ free _ B] show ?thesis by simp
qed

lemma push_contents:
  assumes "invar rb" "0 < rb_size rb"
  shows "\<exists>rb'. push v rb = Inr rb' \<and>
           contents rb' = (if count rb = rb_size rb then tl (contents rb) else contents rb) @ [v]"
proof (cases "count rb = rb_size rb")
  case True
  let ?rb1 = "rb\<lparr>rb_begin := advance (rb_begin rb) (rb_size rb) 1, rb_wrap := False\<rparr>"
  from True assms(2) have k: "(1::nat) \<le> count rb" "0 < (1::nat)" by simp_all
  have i1: "invar ?rb1" using assms by (rule invar_consume)
  have c1: "count ?rb1 < rb_size ?rb1"
    using count_consume [OF assms(1) k(2) k(1)] True assms(2) by simp
  have t1: "contents ?rb1 = tl (contents rb)"
    using contents_consumed [OF assms(1) k(2) k(1)] by (simp add: drop_Suc)
  from True assms(1,2) have "rb_wrap rb" by (intro full_begin_end)
  with invar_bounds [OF assms] have be: "rb_end rb = rb_begin rb" by simp
  have eq: "?rb1\<lparr>rb_buf := (rb_buf ?rb1)[rb_end ?rb1 := v],
                  rb_end := advance (rb_end ?rb1) (rb_size ?rb1) 1,
                  rb_wrap := (rb_begin ?rb1 = advance (rb_end ?rb1) (rb_size ?rb1) 1)\<rparr> =
            rb\<lparr>rb_buf := (rb_buf rb)[rb_end rb := v],
                        rb_begin := advance (rb_begin rb) (rb_size rb) 1,
                        rb_end := advance (rb_end rb) (rb_size rb) 1,
                        rb_wrap := True\<rparr>"
    using be by (cases rb) simp
  from contents_stored [OF i1 c1, of v] t1
  have "contents (rb\<lparr>rb_buf := (rb_buf rb)[rb_end rb := v],
                        rb_begin := advance (rb_begin rb) (rb_size rb) 1,
                        rb_end := advance (rb_end rb) (rb_size rb) 1,
                        rb_wrap := True\<rparr>) = tl (contents rb) @ [v]"
    unfolding eq by simp
  with True show ?thesis by (simp add: push_eq [OF assms])
next
  case False
  then have "count rb < rb_size rb" using count_le_size [OF assms(1)] by simp
  from contents_stored [OF assms(1) this, of v] False show ?thesis
    by (simp add: push_eq [OF assms])
qed

lemma push_full_is_consume_then_push:
  assumes "invar rb" "0 < rb_size rb" "count rb = rb_size rb"
  shows "\<exists>rb1. consume 1 rb = Inr (1, rb1) \<and> push v rb = push v rb1 \<and>
           contents rb1 = tl (contents rb) \<and> count rb1 = count rb - 1"
proof -
  let ?rb1 = "rb\<lparr>rb_begin := advance (rb_begin rb) (rb_size rb) 1, rb_wrap := False\<rparr>"
  from assms have k: "(1::nat) \<le> count rb" "0 < (1::nat)" by simp_all
  have i1: "invar ?rb1" using assms(1,2) by (rule invar_consume)
  have c1: "count ?rb1 = count rb - 1" using count_consume [OF assms(1) k(2) k(1)] .
  with assms have ne: "count ?rb1 \<noteq> rb_size ?rb1" by simp
  have t1: "contents ?rb1 = tl (contents rb)"
    using contents_consumed [OF assms(1) k(2) k(1)] by (simp add: drop_Suc)
  have c: "consume 1 rb = Inr (1, ?rb1)" using assms by (simp add: consume_eq)
  from assms have "rb_wrap rb" by (intro full_begin_end)
  with invar_bounds [OF assms(1,2)] have be: "rb_end rb = rb_begin rb" by simp
  have s1: "0 < rb_size ?rb1" using assms(2) by simp
  have "push v rb = push v ?rb1"
    unfolding push_eq [OF assms(1,2)] push_eq [OF i1 s1] using assms(3) ne
    by (simp add: be)
  with c t1 c1 show ?thesis by blast
qed

lemma drop_excess_step:
  assumes "d \<le> length xs - n"
  shows "drop (length (drop d xs) - n) (drop d xs) = drop (length xs - n) xs"
proof -
  from assms have "length xs - d - n + d = length xs - n" by simp
  then show ?thesis by simp
qed

lemma push_all_contents:
  assumes "invar rb" "0 < rb_size rb"
  shows "\<exists>rb'. push_all vs rb = Inr rb' \<and> invar rb' \<and> rb_size rb' = rb_size rb \<and>
           contents rb' =
             drop (length (contents rb @ vs) - rb_size rb) (contents rb @ vs)"
  using assms
proof (induction vs arbitrary: rb)
  case Nil
  then show ?case using count_le_size [of rb] by simp
next
  case (Cons v vs)
  from push_contents [OF Cons.prems, of v] obtain rb1 where
    p: "push v rb = Inr rb1" and
    c1: "contents rb1 = (if count rb = rb_size rb then tl (contents rb) else contents rb) @ [v]"
    by blast
  from step_pushed [OF Cons.prems(1) p] have i1: "invar rb1" and s1: "rb_size rb1 = rb_size rb"
    by simp_all
  from Cons.IH [OF i1] Cons.prems(2) s1 obtain rb' where
    r: "push_all vs rb1 = Inr rb'" "invar rb'" "rb_size rb' = rb_size rb"
       "contents rb' = drop (length (contents rb1 @ vs) - rb_size rb) (contents rb1 @ vs)"
    by auto
  define d where "d = count rb + 1 - rb_size rb"
  have c1': "contents rb1 = drop d (contents rb @ [v])"
  proof (cases "count rb = rb_size rb")
    case True
    with Cons.prems(2) have "contents rb \<noteq> []" by (auto simp: contents_def)
    with True c1 Cons.prems(2) show ?thesis by (simp add: d_def drop_Suc)
  next
    case False
    with count_le_size [OF Cons.prems(1)] c1 show ?thesis by (simp add: d_def)
  qed
  have dl: "d \<le> length (contents rb @ v # vs) - rb_size rb" by (simp add: d_def)
  have "d \<le> length (contents rb @ [v])" by (simp add: d_def)
  then have "drop d ((contents rb @ [v]) @ vs) = drop d (contents rb @ [v]) @ vs"
    by (simp only: drop_append diff_is_0_eq' drop_0)
  then have "contents rb1 @ vs = drop d (contents rb @ v # vs)"
    unfolding c1' by simp
  with r(4) drop_excess_step [OF dl]
  have "contents rb' = drop (length (contents rb @ v # vs) - rb_size rb) (contents rb @ v # vs)"
    by simp
  with p r(1-3) show ?case by simp
qed

lemma write_contents:
  assumes "invar rb" "min n (getFree rb) \<le> length data"
  shows "\<exists>rb'. write_rb data n rb = Inr (min n (getFree rb), rb') \<and> invar rb' \<and>
           rb_size rb' = rb_size rb \<and>
           contents rb' = contents rb @ take (min n (getFree rb)) data"
proof -
  from write_eq [OF assms] obtain B where
    w: "write_rb data n rb =
           Inr (min n (getFree rb),
                if min n (getFree rb) = 0 then rb
                else rb\<lparr>rb_buf := B,
                        rb_end := advance (rb_end rb) (rb_size rb) (min n (getFree rb)),
                        rb_wrap := (rb_begin rb =
                          advance (rb_end rb) (rb_size rb) (min n (getFree rb)))\<rparr>)"
    and B: "\<forall>j<rb_size rb. B ! advance (rb_end rb) (rb_size rb) j =
              (if j < min n (getFree rb) then data ! j
               else rb_buf rb ! advance (rb_end rb) (rb_size rb) j)"
    by blast
  from step_written [OF assms(1) w] have i: "invar (snd (min n (getFree rb),
                if min n (getFree rb) = 0 then rb
                else rb\<lparr>rb_buf := B,
                        rb_end := advance (rb_end rb) (rb_size rb) (min n (getFree rb)),
                        rb_wrap := (rb_begin rb =
                          advance (rb_end rb) (rb_size rb) (min n (getFree rb)))\<rparr>))" 
     "rb_size (snd (min n (getFree rb),
                if min n (getFree rb) = 0 then rb
                else rb\<lparr>rb_buf := B,
                        rb_end := advance (rb_end rb) (rb_size rb) (min n (getFree rb)),
                        rb_wrap := (rb_begin rb =
                          advance (rb_end rb) (rb_size rb) (min n (getFree rb)))\<rparr>)) = rb_size rb"
    by simp_all
  show ?thesis
  proof (cases "min n (getFree rb) = 0")
    case True
    with w assms(1) show ?thesis by simp
  next
    case False
    then have k: "0 < min n (getFree rb)" "min n (getFree rb) \<le> getFree rb" by simp_all
    from contents_produced [OF assms(1) k assms(2) B] w i False show ?thesis by simp
  qed
qed

lemma produce_contents:
  assumes "invar rb"
  shows "\<exists>rb'. produce n rb = Inr (min n (getFree rb), rb') \<and>
           take (count rb) (contents rb') = contents rb"
proof (cases "min n (getFree rb) = 0")
  case True
  then show ?thesis using assms by (simp add: produce_eq)
next
  case False
  define k where "k = min n (getFree rb)"
  define xs where "xs = map (\<lambda>j. rb_buf rb ! advance (rb_end rb) (rb_size rb) j) [0..<k]"
  from False have k: "0 < k" "k \<le> getFree rb" "k \<le> length xs" by (simp_all add: k_def xs_def)
  have B: "\<forall>j<rb_size rb. rb_buf rb ! advance (rb_end rb) (rb_size rb) j =
              (if j < k then xs ! j else rb_buf rb ! advance (rb_end rb) (rb_size rb) j)"
    by (simp add: xs_def)
  from contents_produced [OF assms k B]
  have "contents (rb\<lparr>rb_end := advance (rb_end rb) (rb_size rb) k,
                     rb_wrap := (rb_begin rb = advance (rb_end rb) (rb_size rb) k)\<rparr>) =
          contents rb @ take k xs" by simp
  then show ?thesis using False assms by (simp add: produce_eq k_def)
qed

subsection \<open>The windowed mean\<close>

text \<open>
  Claim C1 (mean of the most recent \<open>min n capacity\<close> elements, summed and divided over the
  window). On a full buffer of capacity 5 holding 1, 2, 3, 4, 5 (oldest first),
  \<^verbatim>\<open>mean(2)\<close> sums the two most recent elements, 5 and 4, and divides the sum by the
  occupied count 5: the result is \<open>9 / 5\<close>, where the mean of the window is \<open>9 / 2\<close>.
\<close>

theorem mean_n_divides_by_count:
  "push_all [1, 2, 3, 4, 5] (RingBuffer 5) =
     Inr \<lparr>rb_buf = [1, 2, 3, 4, 5], rb_size = 5, rb_begin = 0, rb_end = 0, rb_wrap = True\<rparr> \<and>
   bind_fault (push_all [1, 2, 3, 4, 5] (RingBuffer 5)) (mean_n 2) = Inr (9 / 5)"
  by code_simp

subsection \<open>The variance\<close>

text \<open>
  Claim C2 (sum of squared deviations from the mean over \<open>Count() - 1\<close>). A buffer of
  capacity 4 holding 1 and 3 has mean 2 and squared deviations 1 and 1; \<^verbatim>\<open>variance\<close>
  divides their sum by \<open>size - 1 = 3\<close> and returns \<open>2 / 3\<close>, where the occupied count
  gives the divisor 1 and the value 2.
\<close>

theorem variance_divides_by_capacity:
  "bind_fault (push_all [1, 3] (RingBuffer 4)) (\<lambda>rb. Inr (count rb, contents rb)) = Inr (2, [1, 3]) \<and>
   bind_fault (push_all [1, 3] (RingBuffer 4)) mean = Inr 2 \<and>
   bind_fault (push_all [1, 3] (RingBuffer 4)) variance = Inr (Finite (2 / 3))"
  by code_simp

subsection \<open>The positions the statistics read\<close>

text \<open>
  Claim C3 (every statistic reads each occupied element once, at \<open>(begin + i) mod capacity\<close>).
  The loops reduce \<^verbatim>\<open>iterator\<close> modulo the occupied count, not the capacity. A buffer
  of capacity 5 holding 0 and 1 has the occupied count 2, so \<^verbatim>\<open>iterator\<close> is
  \<open>(0 + 4) mod 2 = 0\<close> in both rounds: position 0 is read twice and position 1 never.
  The mean is 0 (not \<open>1 / 2\<close>), two zeros are counted (not one), and the value 1 is
  counted zero times (not once).
\<close>

theorem statistics_reduce_modulo_count:
  "bind_fault (push_all [0, 1] (RingBuffer 5)) (\<lambda>rb. Inr (count rb, contents rb)) = Inr (2, [0, 1]) \<and>
   bind_fault (push_all [0, 1] (RingBuffer 5)) mean = Inr 0 \<and>
   bind_fault (push_all [0, 1] (RingBuffer 5)) zeroCount = Inr 2 \<and>
   bind_fault (push_all [0, 1] (RingBuffer 5)) (countValue 1) = Inr 0"
  by code_simp

subsection \<open>Faults\<close>

text \<open>
  Claim C4 (every operation is total, a buffer of capacity zero stays empty under
  \<^verbatim>\<open>push\<close>, the degenerate statistics return 0, nothing divides by zero).
  \<^verbatim>\<open>push\<close> on a buffer of capacity zero stores outside the storage (and would then
  reduce modulo zero); \<^verbatim>\<open>mean(1)\<close> on an empty buffer of capacity 5 reduces
  \<^verbatim>\<open>iterator\<close> modulo the occupied count zero; \<^verbatim>\<open>variance\<close> on a buffer of
  capacity 1 divides zero by \<open>size - 1 = 0\<close>, which is not a number.
\<close>

theorem degenerate_cases_fault:
  "push 7 (RingBuffer 0) = Inl OutOfBounds \<and>
   mean_n 1 (RingBuffer 5) = Inl ModuloByZero \<and>
   variance (RingBuffer 1) = Inr NaN \<and>
   bind_fault (push 5 (RingBuffer 1)) variance = Inr NaN"
  by code_simp

subsection \<open>Produce and consume\<close>

text \<open>
  Claim C8, as stated, has \<^verbatim>\<open>produce\<close> raise the flag whenever \<^verbatim>\<open>begin == end\<close>
  holds afterwards. \<^verbatim>\<open>produce(0)\<close> on a fresh buffer returns at once: the indices are
  equal afterwards and the flag stays down.
\<close>

theorem produce_nothing_keeps_flag:
  "produce 0 (RingBuffer 3) = Inr (0, RingBuffer 3) \<and>
   rb_begin (RingBuffer 3) = rb_end (RingBuffer 3) \<and> \<not> rb_wrap (RingBuffer 3)"
  by code_simp

text \<open>
  Claim C8, amended: in every well-formed state, \<^verbatim>\<open>produce(n)\<close> returns
  \<open>k = min n (getFree)\<close>; for \<open>k = 0\<close> it leaves the object as it is, and otherwise it
  moves \<^verbatim>\<open>end\<close> to \<open>(end + k) mod size\<close> and sets the flag to whether \<^verbatim>\<open>begin\<close> and
  \<^verbatim>\<open>end\<close> are then equal. \<^verbatim>\<open>consume(n)\<close> returns \<open>k = min n (count)\<close>; for \<open>k = 0\<close>
  it leaves the object as it is, and otherwise it moves \<^verbatim>\<open>begin\<close> to
  \<open>(begin + k) mod size\<close> and clears the flag. Neither changes the storage (nor any
  other field).
\<close>

theorem produce_consume_frame:
  assumes "invar rb"
  shows "produce n rb =
           Inr (min n (getFree rb),
                if min n (getFree rb) = 0 then rb
                else rb\<lparr>rb_end := (rb_end rb + min n (getFree rb)) mod rb_size rb,
                        rb_wrap := (rb_begin rb =
                          (rb_end rb + min n (getFree rb)) mod rb_size rb)\<rparr>) \<and>
         consume n rb =
           Inr (min n (count rb),
                if min n (count rb) = 0 then rb
                else rb\<lparr>rb_begin := (rb_begin rb + min n (count rb)) mod rb_size rb,
                        rb_wrap := False\<rparr>)"
  using produce_eq [OF assms, of n] consume_eq [OF assms, of n]
  unfolding advance_def by (rule conjI)

theorem produce_consume_frame_witness:
  "invar \<lparr>rb_buf = [1, 2, 0], rb_size = 3, rb_begin = 0, rb_end = 2, rb_wrap = False\<rparr> \<and>
   produce 2 \<lparr>rb_buf = [1, 2, 0], rb_size = 3, rb_begin = 0, rb_end = 2, rb_wrap = False\<rparr> =
     Inr (1, \<lparr>rb_buf = [1, 2, 0], rb_size = 3, rb_begin = 0, rb_end = 0, rb_wrap = True\<rparr>) \<and>
   consume 3 \<lparr>rb_buf = [1, 2, 0], rb_size = 3, rb_begin = 0, rb_end = 2, rb_wrap = False\<rparr> =
     Inr (2, \<lparr>rb_buf = [1, 2, 0], rb_size = 3, rb_begin = 2, rb_end = 2, rb_wrap = False\<rparr>)"
proof -
  let ?rb = "\<lparr>rb_buf = [1, 2, 0], rb_size = 3, rb_begin = 0, rb_end = 2, rb_wrap = False\<rparr>"
  have i: "invar ?rb" by (simp add: invar_def)
  show ?thesis
    using i produce_consume_frame [OF i, of 2] produce_consume_frame [OF i, of 3]
    by (simp add: count_def getFree_def)
qed

subsection \<open>The most recent element\<close>

text \<open>
  Claim C9, as stated, has \<^verbatim>\<open>get_most_recent\<close> return the element of the storage at
  the index \<^verbatim>\<open>end\<close> in every buffer state. A buffer of capacity zero is a buffer state
  (the constructor takes any \<^verbatim>\<open>size_t\<close>), its storage has no element, and
  \<^verbatim>\<open>*(buf + end)\<close> reads outside it.
\<close>

theorem get_most_recent_without_storage:
  "rb_buf (RingBuffer 0) = [] \<and> rb_end (RingBuffer 0) = 0 \<and>
   get_most_recent (RingBuffer 0) = Inl OutOfBounds"
  by code_simp

text \<open>
  Claim C9, amended: in every well-formed state of positive capacity, \<^verbatim>\<open>get_most_recent\<close>
  returns the element of the storage at the index \<^verbatim>\<open>end\<close>, the next slot to be written.
  It is a function of the object alone and assigns to none of its fields, so it has no
  state to return.
\<close>

theorem get_most_recent_reads_end:
  assumes "invar rb" and "0 < rb_size rb"
  shows "get_most_recent rb = Inr (rb_buf rb ! rb_end rb)"
  using assms by (simp add: get_most_recent_def load_def invar_def)

theorem get_most_recent_reads_end_witness:
  "invar \<lparr>rb_buf = [4, 2, 3], rb_size = 3, rb_begin = 1, rb_end = 1, rb_wrap = True\<rparr> \<and>
   0 < rb_size \<lparr>rb_buf = [4, 2, 3], rb_size = 3, rb_begin = 1, rb_end = 1, rb_wrap = True\<rparr> \<and>
   push_all [1, 2, 3, 4] (RingBuffer 3) =
     Inr \<lparr>rb_buf = [4, 2, 3], rb_size = 3, rb_begin = 1, rb_end = 1, rb_wrap = True\<rparr> \<and>
   get_most_recent \<lparr>rb_buf = [4, 2, 3], rb_size = 3, rb_begin = 1, rb_end = 1, rb_wrap = True\<rparr> =
     Inr 2"
proof -
  let ?rb = "\<lparr>rb_buf = [4, 2, 3], rb_size = 3, rb_begin = 1, rb_end = 1, rb_wrap = True\<rparr>"
  have i: "invar ?rb" by (simp add: invar_def)
  have s: "0 < rb_size ?rb" by simp
  have p: "push_all [1, 2, 3, 4] (RingBuffer 3) = Inr ?rb" by code_simp
  show ?thesis
    using i p get_most_recent_reads_end [OF i s] by simp
qed

subsection \<open>Occupancy along every run\<close>

text \<open>
  Claim C7: in every state reached from a fresh buffer of capacity \<open>sz\<close> by a sequence of
  push, write, produce, consume, read and reset calls, \<^verbatim>\<open>count() + getFree()\<close> is the
  capacity and \<^verbatim>\<open>count()\<close> is at most the capacity; it is never negative, that is,
  the subtraction \<^verbatim>\<open>size + end - begin\<close> of \<^verbatim>\<open>count\<close> stays at or above zero.
\<close>

theorem count_free_capacity:
  assumes "run xs (RingBuffer sz) = Inr rb"
  shows "count rb + getFree rb = sz \<and> count rb \<le> sz \<and> rb_begin rb \<le> rb_size rb + rb_end rb"
proof -
  from run_invar [OF invar_RingBuffer assms]
  have i: "invar rb" and s: "rb_size rb = sz" by (simp_all add: size_RingBuffer)
  from i have "rb_begin rb \<le> rb_size rb + rb_end rb"
    by (cases "rb_size rb = 0") (simp_all add: invar_def)
  with count_plus_free [OF i] count_le_size [OF i] s show ?thesis by simp
qed

theorem count_free_capacity_witness:
  "run [Push 1, Push 2, Write [3, 4, 5] 3, Consume 1, Produce 1, Read [0, 0] 2, Push 9, Reset, Push 7]
     (RingBuffer 3) =
     Inr \<lparr>rb_buf = [1, 9, 7], rb_size = 3, rb_begin = 2, rb_end = 0, rb_wrap = False\<rparr> \<and>
   count \<lparr>rb_buf = [1, 9, 7], rb_size = 3, rb_begin = 2, rb_end = 0, rb_wrap = False\<rparr> +
   getFree \<lparr>rb_buf = [1, 9, 7], rb_size = 3, rb_begin = 2, rb_end = 0, rb_wrap = False\<rparr> = 3 \<and>
   count \<lparr>rb_buf = [1, 9, 7], rb_size = 3, rb_begin = 2, rb_end = 0, rb_wrap = False\<rparr> \<le> 3"
proof -
  have r: "run [Push 1, Push 2, Write [3, 4, 5] 3, Consume 1, Produce 1, Read [0, 0] 2, Push 9,
                Reset, Push 7] (RingBuffer 3) =
     Inr \<lparr>rb_buf = [1, 9, 7], rb_size = 3, rb_begin = 2, rb_end = 0, rb_wrap = False\<rparr>"
    by code_simp
  from count_free_capacity [OF r] r show ?thesis by simp
qed

text \<open>
  Claim C10: in every state reached from a fresh buffer of capacity \<open>sz\<close>, a raised flag
  means that \<^verbatim>\<open>begin\<close> and \<^verbatim>\<open>end\<close> are equal and that the buffer of the specification
  holds \<open>sz\<close> elements; and \<^verbatim>\<open>count()\<close> is the number of elements the buffer of the
  specification holds, so it reports the capacity exactly when that many are held and
  zero exactly when none is.
\<close>

theorem flag_only_when_full:
  assumes "run xs (RingBuffer sz) = Inr rb"
  shows "(rb_wrap rb \<longrightarrow> rb_begin rb = rb_end rb \<and> spec_held sz xs 0 = sz \<and> 0 < sz) \<and>
         count rb = spec_held sz xs 0 \<and> rb_size rb = sz"
proof -
  from run_invar [OF invar_RingBuffer assms]
  have i: "invar rb" and s: "rb_size rb = sz" and c: "count rb = spec_held sz xs 0"
    by (simp_all add: size_RingBuffer count_RingBuffer)
  from i have "rb_wrap rb \<longrightarrow> rb_begin rb = rb_end rb \<and> 0 < rb_size rb"
    by (cases "rb_size rb = 0") (simp_all add: invar_def)
  moreover have "rb_wrap rb \<longrightarrow> count rb = rb_size rb"
    using calculation by (simp add: count_def)
  ultimately show ?thesis using s c by simp
qed


theorem flag_only_when_full_witness:
  "run [Push 1, Push 2, Write [3, 4, 5] 3, Consume 1, Produce 1] (RingBuffer 3) =
     Inr \<lparr>rb_buf = [1, 2, 3], rb_size = 3, rb_begin = 1, rb_end = 1, rb_wrap = True\<rparr> \<and>
   spec_held 3 [Push 1, Push 2, Write [3, 4, 5] 3, Consume 1, Produce 1] 0 = 3 \<and>
   count \<lparr>rb_buf = [1, 2, 3], rb_size = 3, rb_begin = 1, rb_end = 1, rb_wrap = True\<rparr> = 3"
proof -
  have r: "run [Push 1, Push 2, Write [3, 4, 5] 3, Consume 1, Produce 1] (RingBuffer 3) =
     Inr \<lparr>rb_buf = [1, 2, 3], rb_size = 3, rb_begin = 1, rb_end = 1, rb_wrap = True\<rparr>"
    by code_simp
  from flag_only_when_full [OF r] r show ?thesis by simp
qed

subsection \<open>Pushing beyond the capacity\<close>

text \<open>
  Claim C5: from every well-formed state of positive capacity, pushing \<open>capacity + k\<close>
  values leaves exactly the last \<open>capacity\<close> of them as the contents, oldest first. A
  push on a full buffer is \<^verbatim>\<open>consume(1)\<close>, which drops the oldest element, followed by
  the push on the state so obtained; a push on a buffer that is not full only appends.
  The other inserting operations evict nothing: \<^verbatim>\<open>write\<close> appends the elements that fit
  to the contents, and \<^verbatim>\<open>produce\<close> keeps the contents as a prefix.
\<close>

theorem push_evicts_oldest:
  assumes "invar rb" and "0 < rb_size rb" and "length vs = rb_size rb + k"
  shows "(\<exists>rb'. push_all vs rb = Inr rb' \<and> contents rb' = drop k vs) \<and>
         (\<exists>rb2. push v rb = Inr rb2 \<and>
            (if count rb = rb_size rb
             then (\<exists>rb1. consume 1 rb = Inr (1, rb1) \<and> contents rb1 = tl (contents rb) \<and>
                         push v rb1 = Inr rb2) \<and>
                  contents rb2 = tl (contents rb) @ [v]
             else contents rb2 = contents rb @ [v])) \<and>
         (min n (getFree rb) \<le> length data \<longrightarrow>
            (\<exists>rb3. write_rb data n rb = Inr (min n (getFree rb), rb3) \<and>
                   contents rb3 = contents rb @ take (min n (getFree rb)) data)) \<and>
         (\<exists>rb4. produce n rb = Inr (min n (getFree rb), rb4) \<and>
                take (count rb) (contents rb4) = contents rb)"
proof (intro conjI)
  from push_all_contents [OF assms(1,2), of vs] obtain rb' where
    r: "push_all vs rb = Inr rb'" and
    c: "contents rb' = drop (length (contents rb @ vs) - rb_size rb) (contents rb @ vs)"
    by blast
  have "length (contents rb @ vs) - rb_size rb = count rb + k" using assms(3) by simp
  then have "contents rb' = drop k vs" unfolding c by simp
  with r show "\<exists>rb'. push_all vs rb = Inr rb' \<and> contents rb' = drop k vs" by blast
next
  from push_contents [OF assms(1,2), of v] obtain rb2 where
    p: "push v rb = Inr rb2" and
    c: "contents rb2 = (if count rb = rb_size rb then tl (contents rb) else contents rb) @ [v]"
    by blast
  show "\<exists>rb2. push v rb = Inr rb2 \<and>
            (if count rb = rb_size rb
             then (\<exists>rb1. consume 1 rb = Inr (1, rb1) \<and> contents rb1 = tl (contents rb) \<and>
                         push v rb1 = Inr rb2) \<and>
                  contents rb2 = tl (contents rb) @ [v]
             else contents rb2 = contents rb @ [v])"
  proof (cases "count rb = rb_size rb")
    case True
    from push_full_is_consume_then_push [OF assms(1,2) True, of v] p
    have "\<exists>rb1. consume 1 rb = Inr (1, rb1) \<and> contents rb1 = tl (contents rb) \<and>
                push v rb1 = Inr rb2" by auto
    with True p c show ?thesis by simp
  next
    case False
    with p c show ?thesis by simp
  qed
next
  show "min n (getFree rb) \<le> length data \<longrightarrow>
            (\<exists>rb3. write_rb data n rb = Inr (min n (getFree rb), rb3) \<and>
                   contents rb3 = contents rb @ take (min n (getFree rb)) data)"
    using write_contents [OF assms(1), of n data] by blast
next
  show "\<exists>rb4. produce n rb = Inr (min n (getFree rb), rb4) \<and>
                take (count rb) (contents rb4) = contents rb"
    using assms(1) by (rule produce_contents)
qed

theorem push_evicts_oldest_witness:
  "invar \<lparr>rb_buf = [4, 2, 3], rb_size = 3, rb_begin = 1, rb_end = 1, rb_wrap = True\<rparr> \<and>
   contents \<lparr>rb_buf = [4, 2, 3], rb_size = 3, rb_begin = 1, rb_end = 1, rb_wrap = True\<rparr> = [2, 3, 4] \<and>
   push_all [5, 6, 7, 8]
       \<lparr>rb_buf = [4, 2, 3], rb_size = 3, rb_begin = 1, rb_end = 1, rb_wrap = True\<rparr> =
     Inr \<lparr>rb_buf = [7, 8, 6], rb_size = 3, rb_begin = 2, rb_end = 2, rb_wrap = True\<rparr> \<and>
   contents \<lparr>rb_buf = [7, 8, 6], rb_size = 3, rb_begin = 2, rb_end = 2, rb_wrap = True\<rparr> =
     [6, 7, 8]"
proof -
  let ?rb = "\<lparr>rb_buf = [4, 2, 3], rb_size = 3, rb_begin = 1, rb_end = 1, rb_wrap = True\<rparr>"
  let ?rb' = "\<lparr>rb_buf = [7, 8, 6], rb_size = 3, rb_begin = 2, rb_end = 2, rb_wrap = True\<rparr>"
  have i: "invar ?rb" by (simp add: invar_def)
  have s: "0 < rb_size ?rb" by simp
  have l: "length [5, 6, 7, 8 :: int] = rb_size ?rb + 1" by simp
  have c: "contents ?rb = [2, 3, 4]" by code_simp
  have r: "push_all [5, 6, 7, 8] ?rb = Inr ?rb'" by code_simp
  from push_evicts_oldest [OF i s l] r have "contents ?rb' = drop 1 [5, 6, 7, 8]" by simp
  with i c r show ?thesis by simp
qed

subsection \<open>Write followed by read\<close>

text \<open>
  Claim C6: on every well-formed empty buffer of capacity at least \<open>n\<close>, with a source
  array and a destination array of \<open>n\<close> elements, \<^verbatim>\<open>write(data, n)\<close> returns \<open>n\<close>, and
  \<^verbatim>\<open>read(dest, n)\<close> on the state it leaves returns \<open>n\<close> and leaves the destination equal
  to the source.
\<close>

theorem write_read_roundtrip:
  assumes "invar rb" and "count rb = 0" and "n \<le> rb_size rb"
      and "length data = n" and "length dest = n"
  shows "\<exists>rb1 rb2. write_rb data n rb = Inr (n, rb1) \<and> read_rb dest n rb1 = Inr (n, data, rb2)"
proof -
  from assms have k: "min n (getFree rb) = n" by (simp add: getFree_def)
  with assms(4) have "min n (getFree rb) \<le> length data" by simp
  from write_contents [OF assms(1) this] obtain rb1 where
    w: "write_rb data n rb = Inr (min n (getFree rb), rb1)" and i: "invar rb1" and
    c: "contents rb1 = contents rb @ take (min n (getFree rb)) data"
    by blast
  from assms(2) have "contents rb = []" by (simp add: contents_def)
  with c k assms(4) have c: "contents rb1 = data" by simp
  from w k have w: "write_rb data n rb = Inr (n, rb1)" by simp
  from c assms(4) have n: "count rb1 = n" using length_contents [of rb1] by simp
  with assms(5) have "min n (count rb1) \<le> length dest" by simp
  from read_eq [OF i this] n c assms(4,5) have "\<exists>rb2. read_rb dest n rb1 = Inr (n, data, rb2)"
    by simp
  with w show ?thesis by blast
qed


theorem write_read_roundtrip_witness:
  "invar \<lparr>rb_buf = [1, 2, 3, 4], rb_size = 4, rb_begin = 3, rb_end = 3, rb_wrap = False\<rparr> \<and>
   count \<lparr>rb_buf = [1, 2, 3, 4], rb_size = 4, rb_begin = 3, rb_end = 3, rb_wrap = False\<rparr> = 0 \<and>
   write_rb [7, 8, 9] 3
       \<lparr>rb_buf = [1, 2, 3, 4], rb_size = 4, rb_begin = 3, rb_end = 3, rb_wrap = False\<rparr> =
     Inr (3, \<lparr>rb_buf = [8, 9, 3, 7], rb_size = 4, rb_begin = 3, rb_end = 2, rb_wrap = False\<rparr>) \<and>
   (\<exists>rb2. read_rb [0, 0, 0] 3
       \<lparr>rb_buf = [8, 9, 3, 7], rb_size = 4, rb_begin = 3, rb_end = 2, rb_wrap = False\<rparr> =
     Inr (3, [7, 8, 9], rb2))"
proof -
  let ?rb = "\<lparr>rb_buf = [1, 2, 3, 4], rb_size = 4, rb_begin = 3, rb_end = 3, rb_wrap = False\<rparr>"
  let ?rb1 = "\<lparr>rb_buf = [8, 9, 3, 7], rb_size = 4, rb_begin = 3, rb_end = 2, rb_wrap = False\<rparr>"
  have i: "invar ?rb" by (simp add: invar_def)
  have c: "count ?rb = 0" by (simp add: count_def)
  have n: "(3::nat) \<le> rb_size ?rb" by simp
  have l: "length [7, 8, 9 :: int] = 3" "length [0, 0, 0 :: int] = 3" by simp_all
  have w: "write_rb [7, 8, 9] 3 ?rb = Inr (3, ?rb1)" by code_simp
  from write_read_roundtrip [OF i c n l] w
  have "\<exists>rb2. read_rb [0, 0, 0] 3 ?rb1 = Inr (3, [7, 8, 9], rb2)" by simp
  with i c w show ?thesis by simp
qed

end
